theory Spec2Isabelle
  imports Complex_Main "HOL-Library.Sublist"
begin

section \<open>JavaScript strings\<close>

text \<open>
  A JavaScript string is a sequence of UTF-16 code units; a code unit is modelled as a
  natural number and a string as a list of them. \<open>js\<close> turns an ASCII literal into such
  a string. \<open>toLowerCase\<close> is modelled on the ASCII letters; every other code unit is left
  as it is, so texts with cased letters outside ASCII are outside the model.
\<close>

type_synonym jschar = nat
type_synonym jsstring = "jschar list"

definition js :: "string \<Rightarrow> jsstring" where
  "js s = map of_char s"

definition toLowerChar :: "jschar \<Rightarrow> jschar" where
  "toLowerChar c = (if 65 \<le> c \<and> c \<le> 90 then c + 32 else c)"

definition toUpperChar :: "jschar \<Rightarrow> jschar" where
  "toUpperChar c = (if 97 \<le> c \<and> c \<le> 122 then c - 32 else c)"

definition toLowerCase :: "jsstring \<Rightarrow> jsstring" where
  "toLowerCase s = map toLowerChar s"

text \<open>The line terminators of ECMAScript: LF, CR, LS, PS.\<close>

definition isLineTerminator :: "jschar \<Rightarrow> bool" where
  "isLineTerminator c = (c = 10 \<or> c = 13 \<or> c = 8232 \<or> c = 8233)"

text \<open>The class \<^verbatim>\<open>\s\<close> of a regular expression, which is also what \<^verbatim>\<open>trim\<close> strips.\<close>

definition isWhiteSpace :: "jschar \<Rightarrow> bool" where
  "isWhiteSpace c =
     (c = 9 \<or> c = 10 \<or> c = 11 \<or> c = 12 \<or> c = 13 \<or> c = 32 \<or> c = 160 \<or> c = 5760 \<or>
      (8192 \<le> c \<and> c \<le> 8202) \<or> c = 8232 \<or> c = 8233 \<or> c = 8239 \<or> c = 8287 \<or>
      c = 12288 \<or> c = 65279)"

definition includesStr :: "jsstring \<Rightarrow> jsstring \<Rightarrow> bool" where
  "includesStr s k = sublist k s"

definition startsWith :: "jsstring \<Rightarrow> jsstring \<Rightarrow> bool" where
  "startsWith s p = prefix p s"

definition endsWith :: "jsstring \<Rightarrow> jsstring \<Rightarrow> bool" where
  "endsWith s p = suffix p s"

definition trim :: "jsstring \<Rightarrow> jsstring" where
  "trim s = rev (dropWhile isWhiteSpace (rev (dropWhile isWhiteSpace s)))"

fun join :: "jsstring \<Rightarrow> jsstring list \<Rightarrow> jsstring" where
  "join sep [] = []"
| "join sep [x] = x"
| "join sep (x # y # ys) = x @ sep @ join sep (y # ys)"

text \<open>
  \<^verbatim>\<open>s.split(sep)\<close> for a separator that is one code unit (\<^verbatim>\<open>'\n'\<close>, or the class
  \<^verbatim>\<open>/[, \n]/\<close>): the pieces between the separators, at least one piece.
\<close>

fun splitWhere :: "(jschar \<Rightarrow> bool) \<Rightarrow> jsstring \<Rightarrow> jsstring list" where
  "splitWhere P [] = [[]]"
| "splitWhere P (c # cs) =
     (if P c then [] # splitWhere P cs
      else (case splitWhere P cs of [] \<Rightarrow> [[c]] | p # ps \<Rightarrow> (c # p) # ps))"

text \<open>
  \<^verbatim>\<open>s.split(/\s+/)\<close>: the separators are the maximal runs of white space; a run at the
  start or at the end of the text leaves an empty piece there.
\<close>

fun splitWs :: "bool \<Rightarrow> jsstring \<Rightarrow> jsstring \<Rightarrow> jsstring list" where
  "splitWs inSep cur [] = [cur]"
| "splitWs inSep cur (c # cs) =
     (if isWhiteSpace c then (if inSep then splitWs True cur cs else cur # splitWs True [] cs)
      else splitWs False (cur @ [c]) cs)"

text \<open>
  \<^verbatim>\<open>xs.slice(s, e)\<close> and \<^verbatim>\<open>xs.slice(s)\<close>: a negative index counts from the end, and both
  indices are clamped to the list.
\<close>

definition sliceIdx :: "nat \<Rightarrow> int \<Rightarrow> nat" where
  "sliceIdx len k = (if k < 0 then nat (max (int len + k) 0) else min (nat k) len)"

definition slice :: "'a list \<Rightarrow> int \<Rightarrow> int \<Rightarrow> 'a list" where
  "slice xs s e =
     (let a = sliceIdx (length xs) s; b = sliceIdx (length xs) e in take (b - a) (drop a xs))"

definition sliceFrom :: "'a list \<Rightarrow> int \<Rightarrow> 'a list" where
  "sliceFrom xs s = drop (sliceIdx (length xs) s) xs"

text \<open>The decimal digits of a number, as string concatenation with a number writes them.\<close>

fun showNat :: "nat \<Rightarrow> jsstring" where
  "showNat n = (if n < 10 then [48 + n] else showNat (n div 10) @ [48 + n mod 10])"

declare showNat.simps [simp del]

text \<open>
  A \<^verbatim>\<open>Set\<close> is the list of its elements in insertion order, a \<^verbatim>\<open>Map\<close> the list of its
  entries in insertion order: \<^verbatim>\<open>set\<close> on a key that is present keeps its place.
\<close>

definition setAdd :: "'a \<Rightarrow> 'a list \<Rightarrow> 'a list" where
  "setAdd x s = (if x \<in> set s then s else s @ [x])"

fun mapSet :: "'k \<Rightarrow> 'v \<Rightarrow> ('k \<times> 'v) list \<Rightarrow> ('k \<times> 'v) list" where
  "mapSet k v [] = [(k, v)]"
| "mapSet k v (p # ps) = (if fst p = k then (k, v) # ps else p # mapSet k v ps)"

fun mapDelete :: "'k \<Rightarrow> ('k \<times> 'v) list \<Rightarrow> ('k \<times> 'v) list" where
  "mapDelete k [] = []"
| "mapDelete k (p # ps) = (if fst p = k then ps else p # mapDelete k ps)"

text \<open>\<^verbatim>\<open>s.indexOf(c, from)\<close>: \<open>None\<close> stands for the result -1.\<close>

fun indexOf :: "jschar \<Rightarrow> jsstring \<Rightarrow> nat option" where
  "indexOf d [] = None"
| "indexOf d (c # cs) = (if c = d then Some 0 else map_option Suc (indexOf d cs))"

definition indexOfFrom :: "jschar \<Rightarrow> jsstring \<Rightarrow> nat \<Rightarrow> nat option" where
  "indexOfFrom d s pos = map_option (\<lambda>j. pos + j) (indexOf d (drop pos s))"

section \<open>Section headers: the regular expressions of the tailoring fallback\<close>

text \<open>
  \<^verbatim>\<open>/^(SKILLS|TECHNICAL SKILLS|CORE SKILLS)[\s:]*$/im\<close> and
  \<^verbatim>\<open>/^(EDUCATION|ACADEMIC)[\s:]*$/im\<close>. With the flag \<^verbatim>\<open>m\<close>, \<^verbatim>\<open>^\<close> holds at the start of
  the text and after a line terminator, and \<^verbatim>\<open>$\<close> at the end of the text and before a line
  terminator. With the flag \<^verbatim>\<open>i\<close> (and no flag \<^verbatim>\<open>u\<close>) a code unit matches an ASCII letter
  of the pattern exactly when its ASCII upper case is that letter. \<^verbatim>\<open>exec\<close> gives the
  leftmost position with a match; only that index is used by the callers.
\<close>

fun matchCI :: "jsstring \<Rightarrow> jsstring \<Rightarrow> jsstring option" where
  "matchCI [] s = Some s"
| "matchCI (p # ps) [] = None"
| "matchCI (p # ps) (c # cs) = (if toUpperChar c = toUpperChar p then matchCI ps cs else None)"

text \<open>\<^verbatim>\<open>[\s:]*$\<close>: some run of blanks and colons ends at a line end.\<close>

fun restOfLineBlank :: "jsstring \<Rightarrow> bool" where
  "restOfLineBlank [] = True"
| "restOfLineBlank (c # cs) =
     (isLineTerminator c \<or> ((isWhiteSpace c \<or> c = 58) \<and> restOfLineBlank cs))"

definition headerAt :: "jsstring list \<Rightarrow> jsstring \<Rightarrow> bool" where
  "headerAt hs s =
     list_ex (\<lambda>h. case matchCI h s of None \<Rightarrow> False | Some r \<Rightarrow> restOfLineBlank r) hs"

fun headerSearch :: "jsstring list \<Rightarrow> bool \<Rightarrow> nat \<Rightarrow> jsstring \<Rightarrow> nat option" where
  "headerSearch hs atLineStart i [] = None"
| "headerSearch hs atLineStart i (c # cs) =
     (if atLineStart \<and> headerAt hs (c # cs) then Some i
      else headerSearch hs (isLineTerminator c) (Suc i) cs)"

definition skillsHeaders :: "jsstring list" where
  "skillsHeaders = [js ''SKILLS'', js ''TECHNICAL SKILLS'', js ''CORE SKILLS'']"

definition educationHeaders :: "jsstring list" where
  "educationHeaders = [js ''EDUCATION'', js ''ACADEMIC'']"

definition skillsMatch :: "jsstring \<Rightarrow> nat option" where
  "skillsMatch s = headerSearch skillsHeaders True 0 s"

definition educationMatch :: "jsstring \<Rightarrow> nat option" where
  "educationMatch s = headerSearch educationHeaders True 0 s"

section \<open>The tailoring fallback (turbo-pipeline.js, fastTailorFallback)\<close>

text \<open>
  The result object: \<open>originalCV\<close> and \<open>stats.skills\<close> are absent from the object of the
  early return, hence optional. The argument \<open>keywordsAll\<close> is \<^verbatim>\<open>keywords.all\<close>.
\<close>

record TailorResult =
  tailoredCV :: jsstring
  originalCV :: "jsstring option"
  injectedKeywords :: "jsstring list"
  statsTotal :: nat
  statsSkills :: "nat option"

definition missingKeywords :: "jsstring \<Rightarrow> jsstring list \<Rightarrow> jsstring list" where
  "missingKeywords cvText keywordsAll =
     (let cvLower = toLowerCase cvText
      in filter (\<lambda>kw. \<not> includesStr cvLower (toLowerCase kw)) keywordsAll)"

definition tailored :: "jsstring \<Rightarrow> jsstring \<Rightarrow> jsstring list \<Rightarrow> TailorResult" where
  "tailored cvText newCV injected =
     \<lparr>tailoredCV = newCV, originalCV = Some cvText, injectedKeywords = injected,
      statsTotal = length injected, statsSkills = Some (length injected)\<rparr>"

definition fastTailorFallback :: "jsstring \<Rightarrow> jsstring list \<Rightarrow> TailorResult" where
  "fastTailorFallback cvText keywordsAll =
     (let missing = missingKeywords cvText keywordsAll
      in if missing = [] then
           \<lparr>tailoredCV = cvText, originalCV = None, injectedKeywords = [],
            statsTotal = 0, statsSkills = None\<rparr>
         else
           (case skillsMatch cvText of
              Some idx \<Rightarrow>
                (case indexOfFrom 10 cvText idx of
                   Some insertPos \<Rightarrow>
                     (let skillsToAdd = take 15 missing;
                          skillsLine = [10] @ join (js '', '') skillsToAdd @ [10]
                      in tailored cvText
                           (take (insertPos + 1) cvText @ skillsLine @ drop (insertPos + 1) cvText)
                           skillsToAdd)
                 | None \<Rightarrow> tailored cvText cvText [])
            | None \<Rightarrow>
                (let skillsToAdd = take 15 missing;
                     newSkillsSection =
                       [10] @ js ''SKILLS'' @ [10] @ join (js '', '') skillsToAdd @ [10, 10]
                 in (case educationMatch cvText of
                       Some eidx \<Rightarrow>
                         tailored cvText
                           (take eidx cvText @ newSkillsSection @ drop eidx cvText) skillsToAdd
                     | None \<Rightarrow> tailored cvText (cvText @ newSkillsSection) skillsToAdd))))"

section \<open>Keyword injection into experience bullets (pdf-ats-turbo.js)\<close>

text \<open>
  The state that \<^verbatim>\<open>formatExperienceWithKeywords\<close> carries from one line to the next: the set
  \<open>usedKeywords\<close> and the counter \<open>keywordIndex\<close>.
\<close>

type_synonym injectState = "jsstring list \<times> nat"

definition maxKeywordsPerBullet :: nat where
  "maxKeywordsPerBullet = 2"

definition isBullet :: "jsstring \<Rightarrow> bool" where
  "isBullet trimmed =
     (startsWith trimmed [45] \<or> startsWith trimmed [8226] \<or> startsWith trimmed [42])"

text \<open>\<^verbatim>\<open>trimmed.replace(/^[-\<bullet>*]\s*/, '')\<close>\<close>

definition stripBullet :: "jsstring \<Rightarrow> jsstring" where
  "stripBullet trimmed =
     (case trimmed of
        [] \<Rightarrow> []
      | c # cs \<Rightarrow> if c = 45 \<or> c = 8226 \<or> c = 42 then dropWhile isWhiteSpace cs else trimmed)"

definition existingCount :: "jsstring list \<Rightarrow> jsstring \<Rightarrow> nat" where
  "existingCount keywordsLower bulletLower =
     length (filter (\<lambda>kw. includesStr bulletLower kw) keywordsLower)"

text \<open>
  The \<^verbatim>\<open>while\<close> loop that fills \<open>toAdd\<close>; \<open>limit\<close> is
  \<^verbatim>\<open>maxKeywordsPerBullet - existingCount\<close>, which is positive where the loop is entered.
\<close>

function selectLoop ::
  "jsstring list \<Rightarrow> jsstring \<Rightarrow> nat \<Rightarrow> jsstring list \<Rightarrow> jsstring list \<Rightarrow> nat
     \<Rightarrow> jsstring list \<times> jsstring list \<times> nat" where
  "selectLoop keywords bulletLower limit toAdd used idx =
     (if length toAdd < limit \<and> idx < length keywords then
        (if \<not> includesStr bulletLower (toLowerCase (keywords ! idx)) \<and>
            toLowerCase (keywords ! idx) \<notin> set used
         then selectLoop keywords bulletLower limit (toAdd @ [keywords ! idx])
                (setAdd (toLowerCase (keywords ! idx)) used) (Suc idx)
         else selectLoop keywords bulletLower limit toAdd used (Suc idx))
      else (toAdd, used, idx))"
  by pat_completeness auto
termination
  by (relation "measure (\<lambda>(keywords, bulletLower, limit, toAdd, used, idx). length keywords - idx)")
     auto

declare selectLoop.simps [simp del]

definition weave :: "jsstring \<Rightarrow> jsstring list \<Rightarrow> jsstring" where
  "weave bulletContent toAdd =
     (if toAdd = [] then bulletContent
      else if endsWith bulletContent [46] then
        butlast bulletContent @ js '', leveraging '' @ join (js '' and '') toAdd @ [46]
      else bulletContent @ js '' utilizing '' @ join (js '' and '') toAdd)"

text \<open>
  One line: the line as rewritten, the keywords put into it (\<open>toAdd\<close>, empty where the
  source has none), and the state after it.
\<close>

definition formatLine ::
  "jsstring list \<Rightarrow> injectState \<Rightarrow> jsstring \<Rightarrow> (jsstring \<times> jsstring list) \<times> injectState" where
  "formatLine keywords st line =
     (let trimmed = trim line; used = fst st; keywordIndex = snd st
      in if isBullet trimmed then
           (let bulletContent = stripBullet trimmed;
                bulletLower = toLowerCase bulletContent;
                existing = existingCount (map toLowerCase keywords) bulletLower
            in if existing < maxKeywordsPerBullet \<and> keywordIndex < length keywords then
                 (case selectLoop keywords bulletLower (maxKeywordsPerBullet - existing)
                         [] used keywordIndex of
                    (toAdd, used', keywordIndex') \<Rightarrow>
                      ((js ''-  '' @ weave bulletContent toAdd, toAdd), (used', keywordIndex')))
               else ((js ''-  '' @ bulletContent, []), st))
         else ((line, []), st))"

fun formatLines ::
  "jsstring list \<Rightarrow> injectState \<Rightarrow> jsstring list \<Rightarrow> (jsstring \<times> jsstring list) list" where
  "formatLines keywords st [] = []"
| "formatLines keywords st (l # ls) =
     (case formatLine keywords st l of (r, st') \<Rightarrow> r # formatLines keywords st' ls)"

definition formatExperienceWithKeywords :: "jsstring \<Rightarrow> jsstring list \<Rightarrow> jsstring" where
  "formatExperienceWithKeywords experienceText keywords =
     (if experienceText = [] then []
      else join [10]
             (map fst (formatLines keywords ([], 0) (splitWhere (\<lambda>c. c = 10) experienceText))))"

text \<open>What the same pass puts into each line, line by line (the lists \<open>toAdd\<close>).\<close>

definition injectedPerLine :: "jsstring \<Rightarrow> jsstring list \<Rightarrow> jsstring list list" where
  "injectedPerLine experienceText keywords =
     (if experienceText = [] then []
      else map snd (formatLines keywords ([], 0) (splitWhere (\<lambda>c. c = 10) experienceText)))"

section \<open>Skills consolidation (pdf-ats-turbo.js, formatSkillsSection)\<close>








section \<open>Keyword extraction (turbo-pipeline.js)\<close>

text \<open>
  The result object of an extraction. The field \<^verbatim>\<open>timing\<close> is a reading of the clock and
  is left out.
\<close>

record KeywordSet =
  all :: "jsstring list"
  highPriority :: "jsstring list"
  mediumPriority :: "jsstring list"
  lowPriority :: "jsstring list"
  total :: nat

definition emptyKeywordSet :: KeywordSet where
  "emptyKeywordSet =
     \<lparr>all = [], highPriority = [], mediumPriority = [], lowPriority = [], total = 0\<rparr>"

definition stopWords :: "jsstring list" where
  "stopWords =
     [js ''a'', js ''an'', js ''the'', js ''and'', js ''or'', js ''but'', js ''in'', js ''on'',
      js ''at'', js ''to'', js ''for'', js ''of'', js ''with'', js ''by'', js ''from'',
      js ''as'', js ''is'', js ''was'', js ''are'', js ''were'', js ''been'', js ''be'',
      js ''have'', js ''has'', js ''had'', js ''do'', js ''does'', js ''did'',
      js ''will'', js ''would'', js ''could'', js ''should'', js ''may'', js ''might'',
      js ''must'', js ''can'', js ''need'', js ''this'', js ''that'',
      js ''you'', js ''your'', js ''we'', js ''our'', js ''they'', js ''their'', js ''work'',
      js ''working'', js ''job'', js ''position'', js ''role'',
      js ''team'', js ''company'', js ''opportunity'', js ''looking'', js ''seeking'',
      js ''required'', js ''requirements'',
      js ''preferred'', js ''ability'', js ''able'', js ''experience'', js ''years'', js ''year'',
      js ''including'', js ''new'']"

definition techBoost :: "jsstring list" where
  "techBoost =
     [js ''python'', js ''java'', js ''javascript'', js ''typescript'', js ''sql'', js ''aws'',
      js ''azure'', js ''gcp'', js ''kubernetes'',
      js ''docker'', js ''terraform'', js ''react'', js ''angular'', js ''vue'', js ''node'',
      js ''spark'', js ''kafka'', js ''airflow'',
      js ''tableau'', js ''snowflake'', js ''machine learning'', js ''deep learning'', js ''ai'',
      js ''ml'', js ''nlp'',
      js ''agile'', js ''scrum'', js ''ci/cd'', js ''devops'', js ''api'', js ''rest'',
      js ''graphql'', js ''microservices'']"

text \<open>\<^verbatim>\<open>.replace(/[^a-z0-9\s\-\/]/g, ' ')\<close>\<close>

definition keepChar :: "jschar \<Rightarrow> bool" where
  "keepChar c =
     ((97 \<le> c \<and> c \<le> 122) \<or> (48 \<le> c \<and> c \<le> 57) \<or> isWhiteSpace c \<or> c = 45 \<or> c = 47)"

definition extractWords :: "jsstring \<Rightarrow> jsstring list" where
  "extractWords text =
     filter (\<lambda>w. 3 \<le> length w \<and> w \<notin> set stopWords)
       (splitWs False [] (map (\<lambda>c. if keepChar c then c else 32) (toLowerCase text)))"

text \<open>
  The body of \<^verbatim>\<open>words.forEach\<close>: the value read back from the map is the value stored by
  the step before. The values are JavaScript numbers; they are modelled as natural
  numbers, which is exact as long as they stay below \<open>2 ^ 53\<close>.
\<close>

definition countWord :: "(jsstring \<times> nat) list \<Rightarrow> jsstring \<Rightarrow> (jsstring \<times> nat) list" where
  "countWord freq word =
     (let count = (case map_of freq word of None \<Rightarrow> 0 | Some v \<Rightarrow> v) + 1;
          boost = (if word \<in> set techBoost then 3 else 1)
      in mapSet word (count * boost) freq)"

definition wordFreq :: "jsstring list \<Rightarrow> (jsstring \<times> nat) list" where
  "wordFreq words = foldl countWord [] words"

text \<open>
  \<^verbatim>\<open>[...freq.entries()].sort((a, b) => b[1] - a[1])\<close>: the sort of an array is stable, so
  it is the stable sort by descending value.
\<close>

definition sortByFreq :: "(jsstring \<times> nat) list \<Rightarrow> (jsstring \<times> nat) list" where
  "sortByFreq entries = sort_key (\<lambda>e. - int (snd e)) entries"

text \<open>
  \<^verbatim>\<open>Math.ceil(n * 0.35)\<close>. The double nearest to 0.35 lies below it by less than
  \<open>2 ^ -55\<close>, so for every length \<open>n\<close> a list can have the rounded product is at most
  \<open>7 * n / 20\<close> and above the integer below it, and its ceiling is the exact one.
\<close>

definition ceil35 :: "nat \<Rightarrow> nat" where
  "ceil35 n = (7 * n + 19) div 20"

definition ultraFastExtraction :: "jsstring \<Rightarrow> int \<Rightarrow> KeywordSet" where
  "ultraFastExtraction text maxKeywords =
     (let words = extractWords text;
          freq = wordFreq words;
          sorted = slice (map fst (sortByFreq freq)) 0 maxKeywords;
          highCount = ceil35 (length sorted);
          mediumCount = ceil35 (length sorted)
      in \<lparr>all = sorted,
          highPriority = slice sorted 0 (int highCount),
          mediumPriority = slice sorted (int highCount) (int (highCount + mediumCount)),
          lowPriority = sliceFrom sorted (int (highCount + mediumCount)),
          total = length sorted\<rparr>)"

text \<open>
  The branch for \<^verbatim>\<open>global.KeywordExtractor\<close>: \<open>extractedAll\<close> is the list \<^verbatim>\<open>extracted.all\<close>
  that the external extractor returned.
\<close>

definition wrapExtracted :: "jsstring list \<Rightarrow> int \<Rightarrow> KeywordSet" where
  "wrapExtracted extractedAll maxKeywords =
     (let highCount = min 12 (ceil35 (length extractedAll));
          mediumCount = min 10 (ceil35 (length extractedAll))
      in \<lparr>all = slice extractedAll 0 maxKeywords,
          highPriority = slice extractedAll 0 (int highCount),
          mediumPriority = slice extractedAll (int highCount) (int (highCount + mediumCount)),
          lowPriority = sliceFrom extractedAll (int (highCount + mediumCount)),
          total = length extractedAll\<rparr>)"

text \<open>
  The optional external extractors, which are not part of this repository: each is a
  parameter, \<open>None\<close> when it is not registered.
\<close>

record Extractors =
  reliableExtractor :: "(jsstring \<Rightarrow> int \<Rightarrow> KeywordSet) option"
  keywordExtractor :: "(jsstring \<Rightarrow> int \<Rightarrow> jsstring list) option"

definition MAX_CACHE_SIZE :: nat where
  "MAX_CACHE_SIZE = 50"

type_synonym keywordCache = "(jsstring \<times> KeywordSet) list"

text \<open>\<^verbatim>\<open>text.charCodeAt(0)\<close>: \<open>None\<close> stands for \<^verbatim>\<open>NaN\<close>, the result on the empty string.\<close>

definition charCodeAt0 :: "jsstring \<Rightarrow> nat option" where
  "charCodeAt0 text = (case text of [] \<Rightarrow> None | c # cs \<Rightarrow> Some c)"

definition getCacheKey :: "jsstring \<Rightarrow> jsstring" where
  "getCacheKey text =
     showNat (length (take 500 text)) @ js ''_'' @ showNat (length text) @ js ''_'' @
     (case charCodeAt0 text of None \<Rightarrow> js ''NaN'' | Some c \<Rightarrow> showNat c)"

definition cacheResult :: "keywordCache \<Rightarrow> jsstring \<Rightarrow> KeywordSet \<Rightarrow> keywordCache" where
  "cacheResult cache cacheKey result =
     mapSet cacheKey result
       (if MAX_CACHE_SIZE \<le> length cache then
          (case cache of [] \<Rightarrow> cache | first # rest \<Rightarrow> mapDelete (fst first) cache)
        else cache)"

text \<open>
  \<^verbatim>\<open>turboExtractKeywords\<close> has no \<^verbatim>\<open>await\<close> in its body, so a call runs to its end before
  the next one starts: it is a function from the cache before to the cache after and the
  returned set.
\<close>

definition turboExtractKeywords ::
  "Extractors \<Rightarrow> jsstring \<Rightarrow> int \<Rightarrow> keywordCache \<Rightarrow> keywordCache \<times> KeywordSet" where
  "turboExtractKeywords env jobDescription maxKeywords cache =
     (if length jobDescription < 50 then (cache, emptyKeywordSet)
      else
        (let cacheKey = getCacheKey jobDescription
         in case map_of cache cacheKey of
              Some hit \<Rightarrow> (cache, hit)
            | None \<Rightarrow>
                (let result =
                       (case reliableExtractor env of
                          Some extractReliableKeywords \<Rightarrow>
                            extractReliableKeywords jobDescription maxKeywords
                        | None \<Rightarrow>
                            (case keywordExtractor env of
                               Some extractKeywords \<Rightarrow>
                                 wrapExtracted (extractKeywords jobDescription maxKeywords)
                                   maxKeywords
                             | None \<Rightarrow> ultraFastExtraction jobDescription maxKeywords))
                 in (cacheResult cache cacheKey result, result))))"

text \<open>
  What a call computes when the cache has no entry for the key (source lines 40 to 58):
  the same expression as the one bound to \<^verbatim>\<open>result\<close> in \<open>turboExtractKeywords\<close>.
\<close>

definition extractUncached :: "Extractors \<Rightarrow> jsstring \<Rightarrow> int \<Rightarrow> KeywordSet" where
  "extractUncached env jobDescription maxKeywords =
     (case reliableExtractor env of
        Some extractReliableKeywords \<Rightarrow> extractReliableKeywords jobDescription maxKeywords
      | None \<Rightarrow>
          (case keywordExtractor env of
             Some extractKeywords \<Rightarrow>
               wrapExtracted (extractKeywords jobDescription maxKeywords) maxKeywords
           | None \<Rightarrow> ultraFastExtraction jobDescription maxKeywords))"

text \<open>A run of extraction calls, one job description after the other, on one cache.\<close>

fun extractAll :: "Extractors \<Rightarrow> int \<Rightarrow> keywordCache \<Rightarrow> jsstring list \<Rightarrow> keywordCache" where
  "extractAll env maxKeywords cache [] = cache"
| "extractAll env maxKeywords cache (t # ts) =
     extractAll env maxKeywords (fst (turboExtractKeywords env t maxKeywords cache)) ts"

section \<open>Concrete inputs\<close>

definition sixteenKeywords :: "jsstring list" where
  "sixteenKeywords =
     [js ''go'', js ''rust'', js ''perl'', js ''ruby'', js ''java'', js ''bash'', js ''html'',
      js ''css'', js ''php'', js ''dart'', js ''c++'', js ''vue'', js ''aws'', js ''gcp'',
      js ''tdd'', js ''jira'']"

definition skillsOnlyCV :: jsstring where
  "skillsOnlyCV = js ''SKILLS'' @ [10] @ js ''Excel''"

definition noExtractors :: Extractors where
  "noExtractors = \<lparr>reliableExtractor = None, keywordExtractor = None\<rparr>"

definition jobTextA :: jsstring where
  "jobTextA = js ''python developer with docker and kubernetes experience''"

definition jobTextB :: jsstring where
  "jobTextB = js ''public relations lead for a fashion retail brand team.''"

definition fiftyOneTexts :: "jsstring list" where
  "fiftyOneTexts = map (\<lambda>n. replicate n 97) [50..<101]"

definition thirtyFiveKeywords :: "jsstring list" where
  "thirtyFiveKeywords =
     [js ''kw01'', js ''kw02'', js ''kw03'', js ''kw04'', js ''kw05'', js ''kw06'', js ''kw07'',
      js ''kw08'', js ''kw09'', js ''kw10'', js ''kw11'', js ''kw12'', js ''kw13'', js ''kw14'',
      js ''kw15'', js ''kw16'', js ''kw17'', js ''kw18'', js ''kw19'', js ''kw20'', js ''kw21'',
      js ''kw22'', js ''kw23'', js ''kw24'', js ''kw25'', js ''kw26'', js ''kw27'', js ''kw28'',
      js ''kw29'', js ''kw30'', js ''kw31'', js ''kw32'', js ''kw33'', js ''kw34'', js ''kw35'']"

definition fixedExtractor :: "jsstring \<Rightarrow> int \<Rightarrow> jsstring list" where
  "fixedExtractor text maxKeywords = thirtyFiveKeywords"

definition genericOnly :: Extractors where
  "genericOnly = \<lparr>reliableExtractor = None, keywordExtractor = Some fixedExtractor\<rparr>"




definition twoBullets :: jsstring where
  "twoBullets = js ''- Built data pipelines.'' @ [10] @ js ''Acme Corp'' @ [10] @ js ''* Led the team''"

definition threeKeywords :: "jsstring list" where
  "threeKeywords = [js ''Spark'', js ''Kafka'', js ''Python'']"

section \<open>Auxiliary definitions for the statements and proofs\<close>


text \<open>
  The line that the pass emits for a line and the keywords chosen for it (used in the
  proofs below).
\<close>

definition emittedLine :: "jsstring \<Rightarrow> jsstring list \<Rightarrow> jsstring" where
  "emittedLine line toAdd =
     (if isBullet (trim line) then
        js ''-  '' @
        (if toAdd = [] then stripBullet (trim line)
         else if endsWith (stripBullet (trim line)) [46] then
           butlast (stripBullet (trim line)) @ js '', leveraging '' @
           join (js '' and '') toAdd @ [46]
         else stripBullet (trim line) @ js '' utilizing '' @ join (js '' and '') toAdd)
      else line)"




section \<open>Evaluation on concrete strings\<close>

lemmas str_defs = js_def toLowerCase_def toLowerChar_def toUpperChar_def isLineTerminator_def
  isWhiteSpace_def includesStr_def startsWith_def endsWith_def trim_def sublist_code
  suffix_to_prefix

lemmas header_defs = skillsMatch_def educationMatch_def skillsHeaders_def educationHeaders_def
  headerAt_def indexOfFrom_def

lemmas bullet_defs = formatExperienceWithKeywords_def formatLine_def isBullet_def
  stripBullet_def existingCount_def maxKeywordsPerBullet_def weave_def setAdd_def

section \<open>Properties of the tailoring fallback\<close>

lemma injected_cases:
  "injectedKeywords (fastTailorFallback cv kws) = [] \<or>
   injectedKeywords (fastTailorFallback cv kws) = take 15 (missingKeywords cv kws)"
  by (simp add: fastTailorFallback_def tailored_def Let_def split: option.splits)

lemma distinct_missingKeywords: "distinct kws \<Longrightarrow> distinct (missingKeywords cv kws)"
  by (simp add: missingKeywords_def)

text \<open>
  C10: one call of the tailoring fallback injects at most 15 keywords, whatever the number
  of supplied keywords missing from the CV: what it injects is the first 15 missing
  keywords or nothing, so (the supplied keywords being distinct) no missing keyword after
  the fifteenth is injected in that call.
\<close>

theorem fastTailorFallback_at_most_15:
  "length (injectedKeywords (fastTailorFallback cv kws)) \<le> 15 \<and>
   (injectedKeywords (fastTailorFallback cv kws) = [] \<or>
    injectedKeywords (fastTailorFallback cv kws) = take 15 (missingKeywords cv kws)) \<and>
   (distinct kws \<longrightarrow>
      set (injectedKeywords (fastTailorFallback cv kws)) \<inter>
      set (drop 15 (missingKeywords cv kws)) = {})"
proof -
  let ?inj = "injectedKeywords (fastTailorFallback cv kws)"
  let ?m = "missingKeywords cv kws"
  from injected_cases [of cv kws] have c: "?inj = [] \<or> ?inj = take 15 ?m" .
  then have "length ?inj \<le> 15" by auto
  moreover have "set ?inj \<inter> set (drop 15 ?m) = {}" if "distinct kws"
  proof -
    from that have "distinct ?m" by (rule distinct_missingKeywords)
    then have "set (take 15 ?m) \<inter> set (drop 15 ?m) = {}"
      by (rule set_take_disj_set_drop_if_distinct) simp
    with c show ?thesis by auto
  qed
  ultimately show ?thesis using c by blast
qed

lemma sixteen_missing: "missingKeywords skillsOnlyCV sixteenKeywords = sixteenKeywords"
  by code_simp

lemma sixteen_injected:
  "injectedKeywords (fastTailorFallback skillsOnlyCV sixteenKeywords) = take 15 sixteenKeywords"
  by code_simp

theorem fastTailorFallback_at_most_15_witness:
  "distinct sixteenKeywords \<and>
   length (missingKeywords skillsOnlyCV sixteenKeywords) = 16 \<and>
   length (injectedKeywords (fastTailorFallback skillsOnlyCV sixteenKeywords)) = 15 \<and>
   js ''jira'' \<notin> set (injectedKeywords (fastTailorFallback skillsOnlyCV sixteenKeywords))"
proof -
  have d: "distinct sixteenKeywords" by code_simp
  have l: "length (missingKeywords skillsOnlyCV sixteenKeywords) = 16"
    by (simp add: sixteen_missing) code_simp
  have i: "length (injectedKeywords (fastTailorFallback skillsOnlyCV sixteenKeywords)) = 15"
    by (simp add: sixteen_injected) code_simp
  have "js ''jira'' \<in> set (drop 15 (missingKeywords skillsOnlyCV sixteenKeywords))"
    by (simp add: sixteen_missing) code_simp
  with fastTailorFallback_at_most_15 [of skillsOnlyCV sixteenKeywords] d
  have "js ''jira'' \<notin> set (injectedKeywords (fastTailorFallback skillsOnlyCV sixteenKeywords))"
    by blast
  with d l i show ?thesis by blast
qed

section \<open>The tailoring fallback without a skills header\<close>

lemma no_header_in_Profile: "skillsMatch (js ''Profile'') = None"
  by (simp add: str_defs header_defs)

lemma fallback_on_Profile:
  "fastTailorFallback (js ''Profile'') [js ''python''] =
     tailored (js ''Profile'')
       (js ''Profile'' @ [10] @ js ''SKILLS'' @ [10] @ js ''python'' @ [10, 10]) [js ''python'']"
  by (simp add: fastTailorFallback_def missingKeywords_def str_defs header_defs Let_def)

theorem no_skills_header_counterexample:
  "skillsMatch (js ''Profile'') = None \<and>
   missingKeywords (js ''Profile'') [js ''python''] \<noteq> [] \<and>
   tailoredCV (fastTailorFallback (js ''Profile'') [js ''python'']) \<noteq> js ''Profile'' \<and>
   injectedKeywords (fastTailorFallback (js ''Profile'') [js ''python'']) = [js ''python'']"
  by (simp add: no_header_in_Profile fallback_on_Profile tailored_def)
     (simp add: missingKeywords_def str_defs)

text \<open>
  C9 (as amended): on a CV without a skills header and with at least one keyword missing,
  the tailoring fallback does not fail and does not return the text unchanged: it puts a
  new SKILLS section with the first 15 missing keywords before the education header, or at
  the end of the text when there is none, and reports those keywords as injected. The
  text comes back unchanged with an empty list of injected keywords when the skills header
  is found and no line feed follows it.
\<close>

theorem fastTailorFallback_no_skills_header:
  "(skillsMatch cv = None \<and> missingKeywords cv kws \<noteq> [] \<longrightarrow>
      injectedKeywords (fastTailorFallback cv kws) = take 15 (missingKeywords cv kws) \<and>
      injectedKeywords (fastTailorFallback cv kws) \<noteq> [] \<and>
      originalCV (fastTailorFallback cv kws) = Some cv \<and>
      tailoredCV (fastTailorFallback cv kws) =
        (case educationMatch cv of
           Some e \<Rightarrow> take e cv @ [10] @ js ''SKILLS'' @ [10] @
                     join (js '', '') (take 15 (missingKeywords cv kws)) @ [10, 10] @ drop e cv
         | None \<Rightarrow> cv @ [10] @ js ''SKILLS'' @ [10] @
                     join (js '', '') (take 15 (missingKeywords cv kws)) @ [10, 10])) \<and>
   (missingKeywords cv kws \<noteq> [] \<and> skillsMatch cv = Some i \<and> indexOfFrom 10 cv i = None \<longrightarrow>
      tailoredCV (fastTailorFallback cv kws) = cv \<and>
      injectedKeywords (fastTailorFallback cv kws) = [])"
  by (auto simp add: fastTailorFallback_def tailored_def Let_def split: option.splits)

theorem fastTailorFallback_no_skills_header_witness:
  "skillsMatch (js ''Profile'') = None \<and>
   missingKeywords (js ''Profile'') [js ''python''] \<noteq> [] \<and>
   injectedKeywords (fastTailorFallback (js ''Profile'') [js ''python'']) = [js ''python''] \<and>
   skillsMatch (js ''SKILLS'') = Some 0 \<and> indexOfFrom 10 (js ''SKILLS'') 0 = None \<and>
   missingKeywords (js ''SKILLS'') [js ''python''] \<noteq> [] \<and>
   tailoredCV (fastTailorFallback (js ''SKILLS'') [js ''python'']) = js ''SKILLS'' \<and>
   injectedKeywords (fastTailorFallback (js ''SKILLS'') [js ''python'']) = []"
proof -
  have a: "skillsMatch (js ''Profile'') = None" by (rule no_header_in_Profile)
  have b: "missingKeywords (js ''Profile'') [js ''python''] = [js ''python'']"
    by (simp add: missingKeywords_def str_defs)
  have c: "skillsMatch (js ''SKILLS'') = Some 0" by (simp add: str_defs header_defs)
  have d: "indexOfFrom 10 (js ''SKILLS'') 0 = None" by (simp add: str_defs header_defs)
  have e: "missingKeywords (js ''SKILLS'') [js ''python''] = [js ''python'']"
    by (simp add: missingKeywords_def str_defs)
  from fastTailorFallback_no_skills_header [of "js ''Profile''" "[js ''python'']" 0] a b
  have f: "injectedKeywords (fastTailorFallback (js ''Profile'') [js ''python'']) = [js ''python'']"
    by simp
  from fastTailorFallback_no_skills_header [of "js ''SKILLS''" "[js ''python'']" 0] c d e
  have g: "tailoredCV (fastTailorFallback (js ''SKILLS'') [js ''python'']) = js ''SKILLS'' \<and>
           injectedKeywords (fastTailorFallback (js ''SKILLS'') [js ''python'']) = []"
    by simp
  from a b c d e f g show ?thesis by simp
qed

section \<open>The fingerprint and the cache\<close>

lemma map_of_mapSet: "map_of (mapSet k v c) k = Some v"
  by (induction c) auto

lemma map_of_cacheResult: "map_of (cacheResult c k r) k = Some r"
  by (simp add: cacheResult_def map_of_mapSet)

lemma turbo_short:
  "length t < 50 \<Longrightarrow> turboExtractKeywords env t mk cache = (cache, emptyKeywordSet)"
  by (simp add: turboExtractKeywords_def)

lemma turbo_hit:
  "50 \<le> length t \<Longrightarrow> map_of cache (getCacheKey t) = Some hit \<Longrightarrow>
   turboExtractKeywords env t mk cache = (cache, hit)"
  by (simp add: turboExtractKeywords_def Let_def)

lemma turbo_miss:
  "50 \<le> length t \<Longrightarrow> map_of cache (getCacheKey t) = None \<Longrightarrow>
   turboExtractKeywords env t mk cache =
     (cacheResult cache (getCacheKey t) (extractUncached env t mk), extractUncached env t mk)"
  by (simp add: turboExtractKeywords_def extractUncached_def Let_def)

lemma turbo_stores:
  assumes "50 \<le> length t"
  shows "map_of (fst (turboExtractKeywords env t mk cache)) (getCacheKey t) =
           Some (snd (turboExtractKeywords env t mk cache))"
proof (cases "map_of cache (getCacheKey t)")
  case None
  with assms show ?thesis by (simp add: turbo_miss map_of_cacheResult)
next
  case (Some hit)
  with assms show ?thesis by (simp add: turbo_hit)
qed

text \<open>
  C6: two job descriptions of equal length, equal length of the 500-character prefix and
  equal first character code have the same cache key, and an extraction call on the
  second one, made on the cache the call on the first one left, returns what the first
  call returned and leaves the cache as it is, whatever the second text says and whatever
  extractors are registered. When the first text is long enough to be extracted, the
  first call leaves its set in the cache under the shared key: on a miss that set is the
  extraction of the first text, which the second call then returns in place of an
  extraction of the second text; on a hit it is the set that was in the cache.
\<close>

theorem fingerprint_collision_serves_cached:
  assumes "length t1 = length t2" and "length (take 500 t1) = length (take 500 t2)"
    and "charCodeAt0 t1 = charCodeAt0 t2"
  shows "getCacheKey t1 = getCacheKey t2 \<and>
         turboExtractKeywords env2 t2 mk2 (fst (turboExtractKeywords env1 t1 mk1 cache)) =
           turboExtractKeywords env1 t1 mk1 cache \<and>
         (50 \<le> length t1 \<longrightarrow>
            map_of (fst (turboExtractKeywords env1 t1 mk1 cache)) (getCacheKey t2) =
              Some (snd (turboExtractKeywords env1 t1 mk1 cache)) \<and>
            (map_of cache (getCacheKey t1) = None \<longrightarrow>
               fst (turboExtractKeywords env1 t1 mk1 cache) =
                 cacheResult cache (getCacheKey t1) (extractUncached env1 t1 mk1) \<and>
               snd (turboExtractKeywords env2 t2 mk2 (fst (turboExtractKeywords env1 t1 mk1 cache))) =
                 extractUncached env1 t1 mk1) \<and>
            (\<forall>hit. map_of cache (getCacheKey t1) = Some hit \<longrightarrow>
               snd (turboExtractKeywords env2 t2 mk2 (fst (turboExtractKeywords env1 t1 mk1 cache))) =
                 hit))"
proof -
  have k: "getCacheKey t1 = getCacheKey t2" using assms by (simp add: getCacheKey_def)
  have same: "turboExtractKeywords env2 t2 mk2 (fst (turboExtractKeywords env1 t1 mk1 cache)) =
           turboExtractKeywords env1 t1 mk1 cache"
  proof (cases "length t1 < 50")
    case True
    with assms(1) show ?thesis by (simp add: turbo_short)
  next
    case False
    then have l1: "50 \<le> length t1" by simp
    with assms(1) have l2: "50 \<le> length t2" by simp
    from turbo_stores [OF l1, of env1 mk1 cache] k
    have "map_of (fst (turboExtractKeywords env1 t1 mk1 cache)) (getCacheKey t2) =
            Some (snd (turboExtractKeywords env1 t1 mk1 cache))" by simp
    with l2 show ?thesis by (simp add: turbo_hit)
  qed
  have rest: "map_of (fst (turboExtractKeywords env1 t1 mk1 cache)) (getCacheKey t2) =
              Some (snd (turboExtractKeywords env1 t1 mk1 cache)) \<and>
            (map_of cache (getCacheKey t1) = None \<longrightarrow>
               fst (turboExtractKeywords env1 t1 mk1 cache) =
                 cacheResult cache (getCacheKey t1) (extractUncached env1 t1 mk1) \<and>
               snd (turboExtractKeywords env2 t2 mk2 (fst (turboExtractKeywords env1 t1 mk1 cache))) =
                 extractUncached env1 t1 mk1) \<and>
            (\<forall>hit. map_of cache (getCacheKey t1) = Some hit \<longrightarrow>
               snd (turboExtractKeywords env2 t2 mk2 (fst (turboExtractKeywords env1 t1 mk1 cache))) =
                 hit)" if l1: "50 \<le> length t1"
  proof -
    from turbo_stores [OF l1, of env1 mk1 cache] k
    have s: "map_of (fst (turboExtractKeywords env1 t1 mk1 cache)) (getCacheKey t2) =
            Some (snd (turboExtractKeywords env1 t1 mk1 cache))" by simp
    have m: "fst (turboExtractKeywords env1 t1 mk1 cache) =
                 cacheResult cache (getCacheKey t1) (extractUncached env1 t1 mk1) \<and>
               snd (turboExtractKeywords env2 t2 mk2 (fst (turboExtractKeywords env1 t1 mk1 cache))) =
                 extractUncached env1 t1 mk1" if "map_of cache (getCacheKey t1) = None"
      using that l1 by (simp only: same) (simp add: turbo_miss)
    have h: "snd (turboExtractKeywords env2 t2 mk2 (fst (turboExtractKeywords env1 t1 mk1 cache))) =
                 hit" if "map_of cache (getCacheKey t1) = Some hit" for hit
      using that l1 by (simp only: same) (simp add: turbo_hit)
    from s m h show ?thesis by blast
  qed
  from k same rest show ?thesis by blast
qed

lemma words_of_jobTextA:
  "extractWords jobTextA = [js ''python'', js ''developer'', js ''docker'', js ''kubernetes'']"
  by (simp add: extractWords_def keepChar_def stopWords_def jobTextA_def str_defs)

lemma words_of_jobTextB:
  "extractWords jobTextB =
     [js ''public'', js ''relations'', js ''lead'', js ''fashion'', js ''retail'', js ''brand'']"
  by (simp add: extractWords_def keepChar_def stopWords_def jobTextB_def str_defs)

lemma freq_of_jobTextA:
  "wordFreq [js ''python'', js ''developer'', js ''docker'', js ''kubernetes''] =
     [(js ''python'', 3), (js ''developer'', 1), (js ''docker'', 3), (js ''kubernetes'', 3)]"
  by (simp add: wordFreq_def countWord_def techBoost_def str_defs Let_def)

lemma freq_of_jobTextB:
  "wordFreq [js ''public'', js ''relations'', js ''lead'', js ''fashion'', js ''retail'', js ''brand''] =
     [(js ''public'', 1), (js ''relations'', 1), (js ''lead'', 1), (js ''fashion'', 1),
      (js ''retail'', 1), (js ''brand'', 1)]"
  by (simp add: wordFreq_def countWord_def techBoost_def str_defs Let_def)

lemma ranked_jobTextA:
  "all (ultraFastExtraction jobTextA 35) =
     [js ''python'', js ''docker'', js ''kubernetes'', js ''developer'']"
  by (simp add: ultraFastExtraction_def words_of_jobTextA freq_of_jobTextA sortByFreq_def
        slice_def sliceIdx_def Let_def)

lemma ranked_jobTextB:
  "all (ultraFastExtraction jobTextB 35) =
     [js ''public'', js ''relations'', js ''lead'', js ''fashion'', js ''retail'', js ''brand'']"
  by (simp add: ultraFastExtraction_def words_of_jobTextB freq_of_jobTextB sortByFreq_def
        slice_def sliceIdx_def Let_def)

theorem fingerprint_collision_serves_cached_witness:
  "jobTextA \<noteq> jobTextB \<and> 50 \<le> length jobTextA \<and> length jobTextA = length jobTextB \<and>
   length (take 500 jobTextA) = length (take 500 jobTextB) \<and>
   charCodeAt0 jobTextA = charCodeAt0 jobTextB \<and>
   getCacheKey jobTextA = getCacheKey jobTextB \<and>
   turboExtractKeywords noExtractors jobTextB 35
     (fst (turboExtractKeywords noExtractors jobTextA 35 [])) =
   turboExtractKeywords noExtractors jobTextA 35 [] \<and>
   fst (turboExtractKeywords noExtractors jobTextA 35 []) =
     [(getCacheKey jobTextB, ultraFastExtraction jobTextA 35)] \<and>
   all (snd (turboExtractKeywords noExtractors jobTextB 35
              (fst (turboExtractKeywords noExtractors jobTextA 35 [])))) =
     [js ''python'', js ''docker'', js ''kubernetes'', js ''developer''] \<and>
   all (snd (turboExtractKeywords noExtractors jobTextB 35 [])) =
     [js ''public'', js ''relations'', js ''lead'', js ''fashion'', js ''retail'', js ''brand''] \<and>
   snd (turboExtractKeywords noExtractors jobTextB 35
         (fst (turboExtractKeywords noExtractors jobTextA 35
                [(getCacheKey jobTextA, emptyKeywordSet)]))) = emptyKeywordSet"
proof -
  have a: "jobTextA \<noteq> jobTextB" by (simp add: jobTextA_def jobTextB_def js_def)
  have b: "length jobTextA = length jobTextB" by (simp add: jobTextA_def jobTextB_def js_def)
  have c: "charCodeAt0 jobTextA = charCodeAt0 jobTextB"
    by (simp add: jobTextA_def jobTextB_def js_def charCodeAt0_def)
  have d: "50 \<le> length jobTextA" by (simp add: jobTextA_def js_def)
  from b d have d2: "50 \<le> length jobTextB" by simp
  from b have e: "length (take 500 jobTextA) = length (take 500 jobTextB)" by simp
  have n: "map_of ([] :: keywordCache) (getCacheKey jobTextA) = None" by simp
  have u: "extractUncached noExtractors jobTextA 35 = ultraFastExtraction jobTextA 35"
    by (simp add: extractUncached_def noExtractors_def)
  note inst = fingerprint_collision_serves_cached [OF b e c, of noExtractors 35 noExtractors 35 "[]"]
  from inst have k: "getCacheKey jobTextA = getCacheKey jobTextB" by blast
  from inst have same: "turboExtractKeywords noExtractors jobTextB 35
     (fst (turboExtractKeywords noExtractors jobTextA 35 [])) =
     turboExtractKeywords noExtractors jobTextA 35 []" by blast
  from inst d n have "fst (turboExtractKeywords noExtractors jobTextA 35 []) =
      cacheResult [] (getCacheKey jobTextA) (extractUncached noExtractors jobTextA 35)"
    by blast
  then have f: "fst (turboExtractKeywords noExtractors jobTextA 35 []) =
     [(getCacheKey jobTextB, ultraFastExtraction jobTextA 35)]"
    by (simp add: cacheResult_def MAX_CACHE_SIZE_def u k)
  from inst d n have "snd (turboExtractKeywords noExtractors jobTextB 35
              (fst (turboExtractKeywords noExtractors jobTextA 35 []))) =
      extractUncached noExtractors jobTextA 35" by blast
  then have g: "all (snd (turboExtractKeywords noExtractors jobTextB 35
              (fst (turboExtractKeywords noExtractors jobTextA 35 [])))) =
     [js ''python'', js ''docker'', js ''kubernetes'', js ''developer'']"
    by (simp only: u ranked_jobTextA)
  have h: "all (snd (turboExtractKeywords noExtractors jobTextB 35 [])) =
     [js ''public'', js ''relations'', js ''lead'', js ''fashion'', js ''retail'', js ''brand'']"
    using d2 by (simp add: turbo_miss extractUncached_def noExtractors_def ranked_jobTextB)
  have m: "map_of [(getCacheKey jobTextA, emptyKeywordSet)] (getCacheKey jobTextA) =
             Some emptyKeywordSet" by simp
  from fingerprint_collision_serves_cached [OF b e c, of noExtractors 35 noExtractors 35
      "[(getCacheKey jobTextA, emptyKeywordSet)]"] d m
  have i: "snd (turboExtractKeywords noExtractors jobTextB 35
         (fst (turboExtractKeywords noExtractors jobTextA 35
                [(getCacheKey jobTextA, emptyKeywordSet)]))) = emptyKeywordSet"
    by blast
  from a d b e c k same f g h i show ?thesis by (intro conjI)
qed

section \<open>The cache bound and its eviction order\<close>

lemma keys_mapSet_new: "k \<notin> fst ` set c \<Longrightarrow> map fst (mapSet k v c) = map fst c @ [k]"
  by (induction c) auto

lemma length_mapSet_le: "length (mapSet k v c) \<le> Suc (length c)"
  by (induction c) auto

lemma keys_mapSet: "fst ` set (mapSet k v c) = insert k (fst ` set c)"
  by (induction c) auto

lemma length_cacheResult: "length c \<le> 50 \<Longrightarrow> length (cacheResult c k r) \<le> 50"
proof (cases c)
  case Nil
  then show ?thesis by (simp add: cacheResult_def MAX_CACHE_SIZE_def)
next
  case (Cons first rest)
  assume "length c \<le> 50"
  with Cons length_mapSet_le [of k r rest] length_mapSet_le [of k r c]
  show ?thesis by (auto simp add: cacheResult_def MAX_CACHE_SIZE_def)
qed

lemma keys_cacheResult:
  assumes "k \<notin> fst ` set c"
  shows "map fst (cacheResult c k r) =
           (if 50 \<le> length c then tl (map fst c) else map fst c) @ [k]"
proof (cases c)
  case Nil
  then show ?thesis by (simp add: cacheResult_def MAX_CACHE_SIZE_def)
next
  case (Cons first rest)
  with assms have "k \<notin> fst ` set rest" by auto
  with assms Cons show ?thesis
    by (simp add: cacheResult_def MAX_CACHE_SIZE_def keys_mapSet_new)
qed

lemma evicted_cacheResult: "fst ` set c - fst ` set (cacheResult c k r) \<subseteq> {fst (hd c)}"
proof (cases c)
  case Nil
  then show ?thesis by simp
next
  case (Cons first rest)
  then show ?thesis by (auto simp add: cacheResult_def keys_mapSet)
qed

lemma turbo_cache_cases:
  "fst (turboExtractKeywords env t mk c) = c \<or>
   (\<exists>r. fst (turboExtractKeywords env t mk c) = cacheResult c (getCacheKey t) r)"
  by (auto simp add: turboExtractKeywords_def Let_def split: option.splits)

lemma turbo_cache_miss:
  assumes "50 \<le> length t" and "getCacheKey t \<notin> fst ` set c"
  shows "\<exists>r. fst (turboExtractKeywords env t mk c) = cacheResult c (getCacheKey t) r"
proof -
  from assms(2) have "map_of c (getCacheKey t) = None" by (simp add: map_of_eq_None_iff)
  with assms(1) show ?thesis by (auto simp add: turboExtractKeywords_def Let_def)
qed

lemma length_turbo: "length c \<le> 50 \<Longrightarrow> length (fst (turboExtractKeywords env t mk c)) \<le> 50"
  using turbo_cache_cases [of env t mk c] by (auto simp add: length_cacheResult)

lemma length_extractAll: "length c \<le> 50 \<Longrightarrow> length (extractAll env mk c ts) \<le> 50"
  by (induction ts arbitrary: c) (simp_all add: length_turbo)

lemma keys_turbo_miss:
  assumes "50 \<le> length t" and "getCacheKey t \<notin> fst ` set c"
  shows "map fst (fst (turboExtractKeywords env t mk c)) =
           (if 50 \<le> length c then tl (map fst c) else map fst c) @ [getCacheKey t]"
  using turbo_cache_miss [OF assms, of env mk] keys_cacheResult [OF assms(2)] by auto

lemma keys_cacheResult_subset: "fst ` set (cacheResult c k r) \<subseteq> insert k (fst ` set c)"
proof (cases c)
  case Nil
  then show ?thesis by (simp add: cacheResult_def)
next
  case (Cons first rest)
  then show ?thesis by (auto simp add: cacheResult_def keys_mapSet)
qed

lemma keys_turbo_subset:
  "fst ` set (fst (turboExtractKeywords env t mk c)) \<subseteq> insert (getCacheKey t) (fst ` set c)"
proof -
  from turbo_cache_cases [of env t mk c]
  consider "fst (turboExtractKeywords env t mk c) = c"
    | r where "fst (turboExtractKeywords env t mk c) = cacheResult c (getCacheKey t) r"
    by blast
  then show ?thesis
  proof cases
    case 1
    then show ?thesis by auto
  next
    case 2
    then show ?thesis by (simp only: keys_cacheResult_subset)
  qed
qed

lemma drop_keys_full:
  assumes "length K = 50" and "K1 = tl K @ [k]"
  shows "drop (50 + n - 50) (K1 @ rest) = drop (50 + Suc n - 50) (K @ k # rest)"
proof -
  from assms(1) obtain x K' where K: "K = x # K'" by (cases K) auto
  with assms show ?thesis by simp
qed

lemma disjoint_step: "B \<subseteq> insert k C \<Longrightarrow> A \<inter> C = {} \<Longrightarrow> k \<notin> A \<Longrightarrow> A \<inter> B = {}"
  by blast

lemma keys_extractAll:
  assumes "\<forall>t\<in>set ts. 50 \<le> length t" and "distinct (map getCacheKey ts)"
    and "getCacheKey ` set ts \<inter> fst ` set c = {}" and "length c \<le> 50"
  shows "map fst (extractAll env mk c ts) =
           drop (length c + length ts - 50) (map fst c @ map getCacheKey ts)"
  using assms
proof (induction ts arbitrary: c)
  case Nil
  then show ?case by simp
next
  case (Cons t ts)
  let ?c1 = "fst (turboExtractKeywords env t mk c)"
  let ?k = "getCacheKey t"
  from Cons.prems(1) have t50: "50 \<le> length t" by simp
  from Cons.prems(3) have fresh: "?k \<notin> fst ` set c" by simp
  have k1: "map fst ?c1 = (if 50 \<le> length c then tl (map fst c) else map fst c) @ [?k]"
    by (rule keys_turbo_miss [OF t50 fresh])
  have l1: "length ?c1 \<le> 50" using Cons.prems(4) by (rule length_turbo)
  have sub: "fst ` set ?c1 \<subseteq> insert ?k (fst ` set c)" by (rule keys_turbo_subset)
  from Cons.prems(3) have d1: "getCacheKey ` set ts \<inter> fst ` set c = {}" by auto
  from Cons.prems(2) have d2: "?k \<notin> getCacheKey ` set ts" by simp
  have disj: "getCacheKey ` set ts \<inter> fst ` set ?c1 = {}"
    by (rule disjoint_step [OF sub d1 d2])
  from Cons.prems(1) have p1: "\<forall>t\<in>set ts. 50 \<le> length t" by simp
  from Cons.prems(2) have p2: "distinct (map getCacheKey ts)" by simp
  have ih: "map fst (extractAll env mk ?c1 ts) =
              drop (length ?c1 + length ts - 50) (map fst ?c1 @ map getCacheKey ts)"
    by (rule Cons.IH [OF p1 p2 disj l1])
  have "length (map fst ?c1) =
          length ((if 50 \<le> length c then tl (map fst c) else map fst c) @ [?k])"
    by (simp only: k1)
  then have len1: "length ?c1 = (if 50 \<le> length c then length c else Suc (length c))"
    by (simp split: if_splits)
  have step: "drop (length ?c1 + length ts - 50) (map fst ?c1 @ map getCacheKey ts) =
              drop (length c + length (t # ts) - 50) (map fst c @ map getCacheKey (t # ts))"
  proof (cases "50 \<le> length c")
    case True
    with Cons.prems(4) have c50: "length c = 50" by simp
    with len1 have l50: "length ?c1 = 50" by simp
    from c50 have K: "length (map fst c) = 50" by simp
    from True k1 have K1: "map fst ?c1 = tl (map fst c) @ [?k]" by simp
    from drop_keys_full [OF K K1, of "length ts" "map getCacheKey ts"]
    show ?thesis by (simp only: l50 c50 list.map length_Cons)
  next
    case False
    with len1 have l: "length ?c1 = Suc (length c)" by simp
    from False k1 have k2: "map fst ?c1 = map fst c @ [?k]" by simp
    show ?thesis by (simp only: l k2) simp
  qed
  have "map fst (extractAll env mk c (t # ts)) = map fst (extractAll env mk ?c1 ts)" by simp
  also note ih
  also note step
  finally show ?case .
qed

text \<open>
  C5: a call of the extraction leaves a cache of at most 50 entries at most 50 entries
  long and removes no key other than the oldest one; from the empty cache, any run of
  calls leaves at most 50 entries; and after the calls on 51 job descriptions (each long
  enough to be extracted) with 51 different fingerprints, the cache holds exactly 50
  entries, the 50 fingerprints inserted last in their order of insertion: the first one
  is absent and every other one is present.
\<close>

theorem keywordCache_bounded_fifo:
  "(length cache \<le> 50 \<longrightarrow>
      length (fst (turboExtractKeywords env t mk cache)) \<le> 50 \<and>
      fst ` set cache - fst ` set (fst (turboExtractKeywords env t mk cache))
        \<subseteq> {fst (hd cache)}) \<and>
   length (extractAll env mk [] jds) \<le> 50 \<and>
   (length ts = 51 \<and> (\<forall>t\<in>set ts. 50 \<le> length t) \<and> distinct (map getCacheKey ts) \<longrightarrow>
      length (extractAll env mk [] ts) = 50 \<and>
      map fst (extractAll env mk [] ts) = map getCacheKey (tl ts) \<and>
      getCacheKey (hd ts) \<notin> fst ` set (extractAll env mk [] ts) \<and>
      (\<forall>t\<in>set (tl ts). getCacheKey t \<in> fst ` set (extractAll env mk [] ts)))"
proof -
  have one: "fst ` set cache - fst ` set (fst (turboExtractKeywords env t mk cache))
               \<subseteq> {fst (hd cache)}"
  proof -
    from turbo_cache_cases [of env t mk cache]
    consider "fst (turboExtractKeywords env t mk cache) = cache"
      | r where "fst (turboExtractKeywords env t mk cache) = cacheResult cache (getCacheKey t) r"
      by blast
    then show ?thesis
    proof cases
      case 1
      then show ?thesis by simp
    next
      case 2
      then show ?thesis by (simp only: evicted_cacheResult)
    qed
  qed
  have two: "length (extractAll env mk [] jds) \<le> 50" by (simp add: length_extractAll)
  have three: "length (extractAll env mk [] ts) = 50 \<and>
      map fst (extractAll env mk [] ts) = map getCacheKey (tl ts) \<and>
      getCacheKey (hd ts) \<notin> fst ` set (extractAll env mk [] ts) \<and>
      (\<forall>t\<in>set (tl ts). getCacheKey t \<in> fst ` set (extractAll env mk [] ts))"
    if len: "length ts = 51" and big: "\<forall>t\<in>set ts. 50 \<le> length t"
      and dist: "distinct (map getCacheKey ts)"
  proof -
    from len obtain u us where ts: "ts = u # us" by (cases ts) auto
    from keys_extractAll [OF big dist, of "[]" env mk] len ts
    have keys: "map fst (extractAll env mk [] ts) = map getCacheKey (tl ts)" by simp
    then have "length (map fst (extractAll env mk [] ts)) = length (map getCacheKey (tl ts))"
      by simp
    with len have l: "length (extractAll env mk [] ts) = 50" by simp
    from keys have "set (map fst (extractAll env mk [] ts)) = set (map getCacheKey (tl ts))"
      by simp
    then have s: "fst ` set (extractAll env mk [] ts) = getCacheKey ` set (tl ts)" by simp
    from dist ts have "getCacheKey (hd ts) \<notin> getCacheKey ` set (tl ts)" by simp
    with keys l s show ?thesis by simp
  qed
  from one two three show ?thesis by (simp add: length_turbo)
qed

lemma showNat_digits: "\<forall>c\<in>set (showNat n). 48 \<le> c \<and> c \<le> 57"
proof (induction n rule: showNat.induct)
  case (1 n)
  show ?case
  proof (cases "n < 10")
    case True
    then show ?thesis by (subst showNat.simps) simp
  next
    case False
    have "n mod 10 < 10" by simp
    then have "48 + n mod 10 \<le> 57" by linarith
    with False "1.IH" show ?thesis by (subst showNat.simps) simp
  qed
qed

lemma readNat_showNat: "foldl (\<lambda>a d. 10 * a + (d - 48)) 0 (showNat n) = n"
proof (induction n rule: showNat.induct)
  case (1 n)
  show ?case
  proof (cases "n < 10")
    case True
    then show ?thesis by (subst showNat.simps) simp
  next
    case False
    with "1.IH" show ?thesis by (subst showNat.simps) simp
  qed
qed

lemma showNat_inj:
  assumes "showNat m = showNat n"
  shows "m = n"
proof -
  have "foldl (\<lambda>a d. 10 * a + (d - 48)) 0 (showNat m) =
        foldl (\<lambda>a d. 10 * a + (d - 48)) 0 (showNat n)"
    by (simp only: assms)
  then show ?thesis by (simp only: readNat_showNat)
qed

lemma takeWhile_showNat: "takeWhile (\<lambda>c. c \<noteq> 95) (showNat n @ 95 # rest) = showNat n"
proof -
  have "\<forall>c\<in>set (showNat n). c \<noteq> 95" using showNat_digits [of n] by auto
  then show ?thesis by (simp add: takeWhile_append2)
qed

lemma dropWhile_showNat: "dropWhile (\<lambda>c. c \<noteq> 95) (showNat n @ 95 # rest) = 95 # rest"
proof -
  have "\<forall>c\<in>set (showNat n). c \<noteq> 95" using showNat_digits [of n] by auto
  then show ?thesis by (simp add: dropWhile_append2)
qed

lemma getCacheKey_length: "getCacheKey a = getCacheKey b \<Longrightarrow> length a = length b"
proof -
  assume eq: "getCacheKey a = getCacheKey b"
  define ra where "ra = (case charCodeAt0 a of None \<Rightarrow> js ''NaN'' | Some c \<Rightarrow> showNat c)"
  define rb where "rb = (case charCodeAt0 b of None \<Rightarrow> js ''NaN'' | Some c \<Rightarrow> showNat c)"
  have ka: "getCacheKey a = showNat (length (take 500 a)) @ 95 # (showNat (length a) @ 95 # ra)"
    by (simp add: getCacheKey_def ra_def js_def)
  have kb: "getCacheKey b = showNat (length (take 500 b)) @ 95 # (showNat (length b) @ 95 # rb)"
    by (simp add: getCacheKey_def rb_def js_def)
  from eq have "dropWhile (\<lambda>c. c \<noteq> 95) (getCacheKey a) = dropWhile (\<lambda>c. c \<noteq> 95) (getCacheKey b)"
    by simp
  then have "showNat (length a) @ 95 # ra = showNat (length b) @ 95 # rb"
    unfolding ka kb dropWhile_showNat by simp
  then have "takeWhile (\<lambda>c. c \<noteq> 95) (showNat (length a) @ 95 # ra) =
             takeWhile (\<lambda>c. c \<noteq> 95) (showNat (length b) @ 95 # rb)" by simp
  then have "showNat (length a) = showNat (length b)" unfolding takeWhile_showNat .
  then show ?thesis by (rule showNat_inj)
qed

lemma distinct_keys_of_lengths:
  "distinct (map length ts) \<Longrightarrow> distinct (map getCacheKey ts)"
proof (induction ts)
  case Nil
  then show ?case by simp
next
  case (Cons t ts)
  from Cons.prems have fresh: "length t \<notin> length ` set ts" by simp
  have "getCacheKey t \<notin> getCacheKey ` set ts"
  proof
    assume "getCacheKey t \<in> getCacheKey ` set ts"
    then obtain u where eq: "getCacheKey t = getCacheKey u" and u: "u \<in> set ts"
      by (rule imageE)
    from eq have "length t = length u" by (rule getCacheKey_length)
    then have "length t \<in> length ` set ts" using u by (rule image_eqI)
    with fresh show False by (rule notE)
  qed
  moreover from Cons.prems have "distinct (map length ts)" by simp
  then have "distinct (map getCacheKey ts)" by (rule Cons.IH)
  ultimately show ?case by simp
qed

lemma fiftyOneTexts_lengths: "map length fiftyOneTexts = [50..<101]"
  by (simp add: fiftyOneTexts_def comp_def)

theorem keywordCache_bounded_fifo_witness:
  "length fiftyOneTexts = 51 \<and> map length fiftyOneTexts = [50..<101] \<and>
   distinct (map getCacheKey fiftyOneTexts) \<and>
   length (extractAll noExtractors 35 [] fiftyOneTexts) = 50 \<and>
   getCacheKey (replicate 50 97) \<notin> fst ` set (extractAll noExtractors 35 [] fiftyOneTexts) \<and>
   getCacheKey (replicate 100 97) \<in> fst ` set (extractAll noExtractors 35 [] fiftyOneTexts)"
proof -
  have a: "length fiftyOneTexts = 51" by (simp add: fiftyOneTexts_def)
  have b: "\<forall>t\<in>set fiftyOneTexts. 50 \<le> length t" by (auto simp add: fiftyOneTexts_def)
  have c: "distinct (map getCacheKey fiftyOneTexts)"
    by (rule distinct_keys_of_lengths) (simp add: fiftyOneTexts_lengths)
  have "[50..<101] = 50 # [51..<101]" by (simp add: upt_rec)
  then have h: "hd fiftyOneTexts = replicate 50 97"
    and t: "tl fiftyOneTexts = map (\<lambda>n. replicate n 97) [51..<101]"
    by (simp_all add: fiftyOneTexts_def)
  have "(100::nat) \<in> set [51..<101]" by simp
  then have "replicate 100 97 \<in> set (tl fiftyOneTexts)" unfolding t by (simp only: set_map) blast
  with keywordCache_bounded_fifo [of "[]" noExtractors "[]" 35 "[]" fiftyOneTexts] a b c h
  have "length (extractAll noExtractors 35 [] fiftyOneTexts) = 50 \<and>
        getCacheKey (replicate 50 97) \<notin> fst ` set (extractAll noExtractors 35 [] fiftyOneTexts) \<and>
        getCacheKey (replicate 100 97) \<in> fst ` set (extractAll noExtractors 35 [] fiftyOneTexts)"
    by auto
  with a c fiftyOneTexts_lengths show ?thesis by (intro conjI) simp_all
qed



section \<open>The boost of the fallback extraction\<close>

lemma words_of_boostText:
  "extractWords (js ''alpha alpha alpha alpha alpha alpha alpha python python'') =
     [js ''alpha'', js ''alpha'', js ''alpha'', js ''alpha'', js ''alpha'', js ''alpha'',
      js ''alpha'', js ''python'', js ''python'']"
  by (simp add: extractWords_def keepChar_def stopWords_def str_defs)

lemma freq_of_boostText:
  "wordFreq [js ''alpha'', js ''alpha'', js ''alpha'', js ''alpha'', js ''alpha'', js ''alpha'',
      js ''alpha'', js ''python'', js ''python''] = [(js ''alpha'', 7), (js ''python'', 12)]"
  by (simp add: wordFreq_def countWord_def techBoost_def str_defs Let_def)

text \<open>
  C3: the fallback extraction is to rank a token by its number of occurrences, times 3 for
  a token of the allowlist. The stored value is boosted again at every further occurrence:
  two occurrences of \<^verbatim>\<open>python\<close> are valued (0 + 1) * 3 = 3 and then (3 + 1) * 3 = 12,
  not 2 * 3 = 6, and \<^verbatim>\<open>python\<close> is ranked before a word that occurs seven times.
\<close>

theorem boost_compounds_on_repetition:
  "wordFreq (extractWords (js ''alpha alpha alpha alpha alpha alpha alpha python python'')) =
     [(js ''alpha'', 7), (js ''python'', 12)] \<and>
   all (ultraFastExtraction (js ''alpha alpha alpha alpha alpha alpha alpha python python'') 35) =
     [js ''python'', js ''alpha'']"
  by (simp add: ultraFastExtraction_def words_of_boostText freq_of_boostText sortByFreq_def
        slice_def sliceIdx_def Let_def)



section \<open>The tiers of a keyword set\<close>

lemma sliceIdx_nat: "sliceIdx n (int k) = min k n"
  by (simp add: sliceIdx_def)

lemma take_min_length: "take (min k (length ys)) ys = take k ys"
  by (simp add: min_def)

lemma slice_nat: "slice xs (int a) (int b) = take (b - a) (drop a xs)"
proof (cases "a < length xs")
  case True
  then have "min b (length xs) - a = min (b - a) (length (drop a xs))" by simp
  then have "take (min b (length xs) - a) (drop a xs) = take (b - a) (drop a xs)"
    by (simp only: take_min_length)
  with True show ?thesis by (simp add: slice_def sliceIdx_nat Let_def)
next
  case False
  then show ?thesis by (simp add: slice_def sliceIdx_nat Let_def)
qed

lemma sliceFrom_nat: "sliceFrom xs (int k) = drop k xs"
  by (cases "k \<le> length xs") (simp_all add: sliceFrom_def sliceIdx_nat min_def)

lemma slice_from_zero: "slice xs 0 (int b) = take b xs"
  using slice_nat [of xs 0 b] by simp

lemma tiers_append: "take h xs @ take m (drop h xs) @ drop (h + m) xs = xs"
proof -
  have "take m (drop h xs) @ drop m (drop h xs) = drop h xs" by (rule append_take_drop_id)
  then have "take m (drop h xs) @ drop (h + m) xs = drop h xs" by (simp add: add.commute)
  then show ?thesis by simp
qed

lemma ceil35_le: "ceil35 n \<le> n"
  by (simp add: ceil35_def)

lemma ceil35_ceiling: "int (ceil35 n) = \<lceil>0.35 * real n\<rceil>"
proof -
  define k where "k = ceil35 n"
  have m: "20 * k + (7 * n + 19) mod 20 = 7 * n + 19"
    unfolding k_def ceil35_def by (rule mult_div_mod_eq)
  have r: "(7 * n + 19) mod 20 < 20" by simp
  from m r have lo: "7 * n \<le> 20 * k" by linarith
  from m r have hi: "20 * k < 7 * n + 20" by linarith
  from lo have "real (7 * n) \<le> real (20 * k)" by (simp only: of_nat_le_iff)
  then have a: "0.35 * real n \<le> of_int (int k)" by simp
  from hi have "real (20 * k) < real (7 * n + 20)" by (simp only: of_nat_less_iff)
  then have b: "of_int (int k) - 1 < 0.35 * real n" by simp
  from b a have "\<lceil>0.35 * real n\<rceil> = int k" by (rule ceiling_unique)
  then show ?thesis by (simp only: k_def)
qed

lemma distinct_keys_mapSet: "distinct (map fst c) \<Longrightarrow> distinct (map fst (mapSet k v c))"
proof (induction c)
  case Nil
  then show ?case by simp
next
  case (Cons p ps)
  then show ?case by (auto simp add: keys_mapSet)
qed

lemma distinct_keys_wordFreq_from:
  "distinct (map fst f) \<Longrightarrow> distinct (map fst (foldl countWord f ws))"
  by (induction ws arbitrary: f) (simp_all add: countWord_def Let_def distinct_keys_mapSet)

lemma distinct_keys_sortByFreq:
  "distinct (map fst f) \<Longrightarrow> distinct (map fst (sortByFreq f))"
  by (simp add: sortByFreq_def distinct_map)

lemma distinct_slice: "distinct xs \<Longrightarrow> distinct (slice xs a b)"
  by (simp add: slice_def Let_def)

lemma distinct_ranked: "distinct (all (ultraFastExtraction text mk))"
proof -
  have "distinct (map fst (wordFreq (extractWords text)))"
    unfolding wordFreq_def by (rule distinct_keys_wordFreq_from) simp
  then have "distinct (map fst (sortByFreq (wordFreq (extractWords text))))"
    by (rule distinct_keys_sortByFreq)
  then have "distinct (slice (map fst (sortByFreq (wordFreq (extractWords text)))) 0 mk)"
    by (rule distinct_slice)
  then show ?thesis by (simp add: ultraFastExtraction_def Let_def)
qed

lemma fallback_tiers:
  "highPriority (ultraFastExtraction text mk) =
     take (ceil35 (total (ultraFastExtraction text mk))) (all (ultraFastExtraction text mk))"
  "mediumPriority (ultraFastExtraction text mk) =
     take (ceil35 (total (ultraFastExtraction text mk)))
       (drop (ceil35 (total (ultraFastExtraction text mk))) (all (ultraFastExtraction text mk)))"
  "lowPriority (ultraFastExtraction text mk) =
     drop (ceil35 (total (ultraFastExtraction text mk)) + ceil35 (total (ultraFastExtraction text mk)))
       (all (ultraFastExtraction text mk))"
  "total (ultraFastExtraction text mk) = length (all (ultraFastExtraction text mk))"
  by (simp_all only: ultraFastExtraction_def Let_def KeywordSet.select_convs slice_nat
        slice_from_zero sliceFrom_nat add_diff_cancel_left')

lemma wrapped_tiers:
  "highPriority (wrapExtracted xs mk) = take (min 12 (ceil35 (length xs))) xs"
  "mediumPriority (wrapExtracted xs mk) =
     take (min 10 (ceil35 (length xs))) (drop (min 12 (ceil35 (length xs))) xs)"
  "lowPriority (wrapExtracted xs mk) =
     drop (min 12 (ceil35 (length xs)) + min 10 (ceil35 (length xs))) xs"
  "total (wrapExtracted xs mk) = length xs"
  "all (wrapExtracted xs mk) = slice xs 0 mk"
  by (simp_all only: wrapExtracted_def Let_def KeywordSet.select_convs slice_nat
        slice_from_zero sliceFrom_nat add_diff_cancel_left')

lemma slice_whole: "int (length xs) \<le> mk \<Longrightarrow> slice xs 0 mk = xs"
  by (simp add: slice_def sliceIdx_def Let_def)

text \<open>
  C2 (as amended): on the internal fallback path the three tiers, in the order high,
  medium, low, are consecutive pieces of the ranked list \<open>all\<close> and cover it exactly once;
  the ranked list has no duplicates, so the tiers are disjoint; the lengths of the tiers add
  up to \<open>total\<close>, which is the length of \<open>all\<close>; and the high tier has
  \<open>\<lceil>0.35 * total\<rceil>\<close> entries. On the path that wraps the generic extractor the tiers
  are consecutive pieces of the list the extractor returned and cover it exactly once,
  \<open>total\<close> is the length of that list, the high tier has \<open>min 12 \<lceil>0.35 * total\<rceil>\<close>
  entries and the medium tier at most 10, and \<open>all\<close> is that list cut to
  \<open>maxKeywords\<close>, so that \<open>total\<close> is the length of \<open>all\<close> when the extractor returned
  at most \<open>maxKeywords\<close> keywords.
\<close>

theorem tiers_partition_ranked_list:
  "(highPriority (ultraFastExtraction text mk) @ mediumPriority (ultraFastExtraction text mk) @
      lowPriority (ultraFastExtraction text mk) = all (ultraFastExtraction text mk) \<and>
    distinct (all (ultraFastExtraction text mk)) \<and>
    length (highPriority (ultraFastExtraction text mk)) +
      length (mediumPriority (ultraFastExtraction text mk)) +
      length (lowPriority (ultraFastExtraction text mk)) = total (ultraFastExtraction text mk) \<and>
    total (ultraFastExtraction text mk) = length (all (ultraFastExtraction text mk)) \<and>
    int (length (highPriority (ultraFastExtraction text mk))) =
      \<lceil>0.35 * real (total (ultraFastExtraction text mk))\<rceil>) \<and>
   (highPriority (wrapExtracted xs mk) @ mediumPriority (wrapExtracted xs mk) @
      lowPriority (wrapExtracted xs mk) = xs \<and>
    length (highPriority (wrapExtracted xs mk)) + length (mediumPriority (wrapExtracted xs mk)) +
      length (lowPriority (wrapExtracted xs mk)) = total (wrapExtracted xs mk) \<and>
    total (wrapExtracted xs mk) = length xs \<and>
    int (length (highPriority (wrapExtracted xs mk))) =
      min 12 \<lceil>0.35 * real (total (wrapExtracted xs mk))\<rceil> \<and>
    length (mediumPriority (wrapExtracted xs mk)) \<le> 10 \<and>
    all (wrapExtracted xs mk) = slice xs 0 mk \<and>
    (int (length xs) \<le> mk \<longrightarrow>
       all (wrapExtracted xs mk) = xs \<and>
       total (wrapExtracted xs mk) = length (all (wrapExtracted xs mk))))"
proof -
  let ?r = "ultraFastExtraction text mk"
  let ?w = "wrapExtracted xs mk"
  have f1: "highPriority ?r @ mediumPriority ?r @ lowPriority ?r = all ?r"
    by (simp only: fallback_tiers(1,2,3) tiers_append)
  then have "length (highPriority ?r @ mediumPriority ?r @ lowPriority ?r) = length (all ?r)"
    by (simp only:)
  then have f2: "length (highPriority ?r) + length (mediumPriority ?r) + length (lowPriority ?r) =
                 total ?r"
    by (simp add: fallback_tiers(4))
  have "length (highPriority ?r) = ceil35 (total ?r)"
    using ceil35_le [of "length (all ?r)"] by (simp add: fallback_tiers(1,4))
  then have f3: "int (length (highPriority ?r)) = \<lceil>0.35 * real (total ?r)\<rceil>"
    by (simp only: ceil35_ceiling)
  have w1: "highPriority ?w @ mediumPriority ?w @ lowPriority ?w = xs"
    by (simp only: wrapped_tiers(1,2,3) tiers_append)
  then have "length (highPriority ?w @ mediumPriority ?w @ lowPriority ?w) = length xs"
    by (simp only:)
  then have w2: "length (highPriority ?w) + length (mediumPriority ?w) + length (lowPriority ?w) =
                 total ?w"
    by (simp add: wrapped_tiers(4))
  have "length (highPriority ?w) = min 12 (ceil35 (length xs))"
    using ceil35_le [of "length xs"] by (simp add: wrapped_tiers(1))
  then have "int (length (highPriority ?w)) = min 12 (int (ceil35 (length xs)))" by simp
  then have w3: "int (length (highPriority ?w)) = min 12 \<lceil>0.35 * real (total ?w)\<rceil>"
    by (simp only: ceil35_ceiling wrapped_tiers(4))
  have w4: "length (mediumPriority ?w) \<le> 10" by (simp add: wrapped_tiers(2))
  have w5: "all ?w = xs \<and> total ?w = length (all ?w)" if "int (length xs) \<le> mk"
    using that by (simp add: wrapped_tiers(4,5) slice_whole)
  have w5': "int (length xs) \<le> mk \<longrightarrow> all ?w = xs \<and> total ?w = length (all ?w)"
    by (rule impI) (rule w5)
  note f4 = fallback_tiers(4)[of "text" mk]
  note f5 = distinct_ranked [of "text" mk]
  note w6 = wrapped_tiers(4)[of xs mk]
  note w7 = wrapped_tiers(5)[of xs mk]
  show ?thesis
    by (intro conjI) (rule f1 f2 f3 f4 f5 w1 w2 w3 w4 w5' w6 w7)+
qed


lemma thirtyFive_length: "length thirtyFiveKeywords = 35"
  by (simp add: thirtyFiveKeywords_def)

lemma ceiling_35: "\<lceil>0.35 * real 35\<rceil> = 13"
proof -
  have "ceil35 35 = 13" by (simp add: ceil35_def)
  then have "int (ceil35 35) = 13" by simp
  then show ?thesis by (simp only: ceil35_ceiling)
qed

lemma generic_path_result:
  "snd (turboExtractKeywords genericOnly jobTextA 35 []) = wrapExtracted thirtyFiveKeywords 35"
  by (simp add: turboExtractKeywords_def genericOnly_def fixedExtractor_def jobTextA_def js_def
        Let_def)

lemma wrapped_35_high: "length (highPriority (wrapExtracted thirtyFiveKeywords 35)) = 12"
  by (simp add: wrapped_tiers(1) thirtyFive_length ceil35_def)

theorem tiering_counterexample:
  "int (length (highPriority (snd (turboExtractKeywords genericOnly jobTextA 35 [])))) \<noteq>
     \<lceil>0.35 * real (total (snd (turboExtractKeywords genericOnly jobTextA 35 [])))\<rceil>"
  by (simp only: generic_path_result wrapped_35_high wrapped_tiers(4) thirtyFive_length ceiling_35)

theorem tiers_partition_ranked_list_witness:
  "int (length thirtyFiveKeywords) \<le> 35 \<and>
   all (wrapExtracted thirtyFiveKeywords 35) = thirtyFiveKeywords \<and>
   total (wrapExtracted thirtyFiveKeywords 35) = 35 \<and>
   int (length (highPriority (wrapExtracted thirtyFiveKeywords 35))) = min 12 13 \<and>
   highPriority (ultraFastExtraction jobTextA 35) @ mediumPriority (ultraFastExtraction jobTextA 35) @
     lowPriority (ultraFastExtraction jobTextA 35) = all (ultraFastExtraction jobTextA 35)"
proof -
  have h: "int (length thirtyFiveKeywords) \<le> 35" by (simp add: thirtyFive_length)
  from tiers_partition_ranked_list [of jobTextA 35 thirtyFiveKeywords] h
  have a: "all (wrapExtracted thirtyFiveKeywords 35) = thirtyFiveKeywords"
    and b: "total (wrapExtracted thirtyFiveKeywords 35) = length thirtyFiveKeywords"
    and c: "int (length (highPriority (wrapExtracted thirtyFiveKeywords 35))) =
              min 12 \<lceil>0.35 * real (total (wrapExtracted thirtyFiveKeywords 35))\<rceil>"
    and d: "highPriority (ultraFastExtraction jobTextA 35) @
              mediumPriority (ultraFastExtraction jobTextA 35) @
              lowPriority (ultraFastExtraction jobTextA 35) = all (ultraFastExtraction jobTextA 35)"
    by blast+
  from b have b': "total (wrapExtracted thirtyFiveKeywords 35) = 35"
    by (simp only: thirtyFive_length)
  from c have c': "int (length (highPriority (wrapExtracted thirtyFiveKeywords 35))) = min 12 13"
    by (simp only: b' ceiling_35)
  from h a b' c' d show ?thesis by (intro conjI)
qed



section \<open>Skills consolidation\<close>



























section \<open>One pass of keyword injection\<close>

lemma selectLoop_inv:
  assumes "selectLoop kws bl limit toAdd used idx = (toAdd', used', idx')"
  shows "\<exists>new. toAdd' = toAdd @ new \<and> used' = used @ map toLowerCase new \<and>
           distinct (map toLowerCase new) \<and> set (map toLowerCase new) \<inter> set used = {} \<and>
           set new \<subseteq> set kws \<and> length toAdd' \<le> max (length toAdd) limit"
  using assms
proof (induction kws bl limit toAdd used idx rule: selectLoop.induct)
  case (1 kws bl limit toAdd used idx)
  let ?kw = "kws ! idx"
  let ?lkw = "toLowerCase ?kw"
  show ?case
  proof (cases "length toAdd < limit \<and> idx < length kws")
    case False
    with "1.prems" have "toAdd' = toAdd \<and> used' = used"
      by (subst (asm) selectLoop.simps) simp
    then have "toAdd' = toAdd @ [] \<and> used' = used @ map toLowerCase [] \<and>
           distinct (map toLowerCase []) \<and> set (map toLowerCase []) \<inter> set used = {} \<and>
           set [] \<subseteq> set kws \<and> length toAdd' \<le> max (length toAdd) limit"
      by simp
    then show ?thesis by (rule exI)
  next
    case True
    then have lt: "length toAdd < limit" and idx: "idx < length kws" by simp_all
    show ?thesis
    proof (cases "\<not> includesStr bl ?lkw \<and> ?lkw \<notin> set used")
      case fresh: True
      then have nu: "?lkw \<notin> set used" by simp
      from "1.prems" True fresh
      have run: "selectLoop kws bl limit (toAdd @ [?kw]) (used @ [?lkw]) (Suc idx) =
                   (toAdd', used', idx')"
        by (subst (asm) selectLoop.simps) (simp add: setAdd_def)
      from nu have sa: "setAdd ?lkw used = used @ [?lkw]" by (simp add: setAdd_def)
      from "1.IH"(1) [OF True fresh] run sa
      obtain new where n1: "toAdd' = (toAdd @ [?kw]) @ new"
        and n2: "used' = (used @ [?lkw]) @ map toLowerCase new"
        and n3: "distinct (map toLowerCase new)"
        and n4: "set (map toLowerCase new) \<inter> set (used @ [?lkw]) = {}"
        and n5: "set new \<subseteq> set kws"
        and n6: "length toAdd' \<le> max (length (toAdd @ [?kw])) limit"
        by auto
      from n4 have n4a: "?lkw \<notin> set (map toLowerCase new)"
        and n4b: "set (map toLowerCase new) \<inter> set used = {}" by auto
      from idx have mem: "?kw \<in> set kws" by (rule nth_mem)
      have "toAdd' = toAdd @ (?kw # new)" using n1 by simp
      moreover have "used' = used @ map toLowerCase (?kw # new)" using n2 by simp
      moreover have "distinct (map toLowerCase (?kw # new))" using n3 n4a by simp
      moreover have "set (map toLowerCase (?kw # new)) \<inter> set used = {}"
        using n4b nu by simp
      moreover have "set (?kw # new) \<subseteq> set kws" using n5 mem by simp
      moreover have "length toAdd' \<le> max (length toAdd) limit" using n6 lt by simp
      ultimately have "toAdd' = toAdd @ (?kw # new) \<and>
           used' = used @ map toLowerCase (?kw # new) \<and>
           distinct (map toLowerCase (?kw # new)) \<and>
           set (map toLowerCase (?kw # new)) \<inter> set used = {} \<and>
           set (?kw # new) \<subseteq> set kws \<and> length toAdd' \<le> max (length toAdd) limit"
        by (intro conjI)
      then show ?thesis by (rule exI)
    next
      case stale: False
      from "1.prems" True stale
      have run: "selectLoop kws bl limit toAdd used (Suc idx) = (toAdd', used', idx')"
        by (subst (asm) selectLoop.simps) auto
      from "1.IH"(2) [OF True stale run] show ?thesis .
    qed
  qed
qed

lemma formatLine_inv:
  assumes "formatLine kws (used, idx) l = ((out, toAdd), (used', idx'))"
  shows "used' = used @ map toLowerCase toAdd \<and> distinct (map toLowerCase toAdd) \<and>
         set (map toLowerCase toAdd) \<inter> set used = {} \<and> set toAdd \<subseteq> set kws \<and>
         length toAdd \<le> 2"
proof (cases "isBullet (trim l) \<and>
    existingCount (map toLowerCase kws) (toLowerCase (stripBullet (trim l))) < maxKeywordsPerBullet \<and>
    idx < length kws")
  case False
  with assms have "toAdd = [] \<and> used' = used"
    by (auto simp add: formatLine_def Let_def split: if_splits)
  then show ?thesis by simp
next
  case True
  let ?bl = "toLowerCase (stripBullet (trim l))"
  let ?limit = "maxKeywordsPerBullet - existingCount (map toLowerCase kws) ?bl"
  obtain a b c where sel: "selectLoop kws ?bl ?limit [] used idx = (a, b, c)"
    by (cases "selectLoop kws ?bl ?limit [] used idx") auto
  with assms True have eq: "toAdd = a \<and> used' = b"
    by (simp add: formatLine_def Let_def)
  from selectLoop_inv [OF sel]
  obtain new where "a = [] @ new" and "b = used @ map toLowerCase new"
    and "distinct (map toLowerCase new)" and "set (map toLowerCase new) \<inter> set used = {}"
    and "set new \<subseteq> set kws" and "length a \<le> max (length ([] :: jsstring list)) ?limit"
    by blast
  moreover have "?limit \<le> 2" by (simp add: maxKeywordsPerBullet_def)
  ultimately show ?thesis using eq by simp
qed

lemma formatLines_inv:
  "distinct (map toLowerCase (concat (map snd (formatLines kws (used, idx) ls)))) \<and>
   set (map toLowerCase (concat (map snd (formatLines kws (used, idx) ls)))) \<inter> set used = {} \<and>
   set (concat (map snd (formatLines kws (used, idx) ls))) \<subseteq> set kws \<and>
   list_all (\<lambda>toAdd. length toAdd \<le> 2) (map snd (formatLines kws (used, idx) ls))"
proof (induction ls arbitrary: used idx)
  case Nil
  show ?case by simp
next
  case (Cons l ls)
  obtain out toAdd used' idx' where fl: "formatLine kws (used, idx) l = ((out, toAdd), (used', idx'))"
    by (cases "formatLine kws (used, idx) l") auto
  let ?rest = "concat (map snd (formatLines kws (used', idx') ls))"
  from formatLine_inv [OF fl]
  have u: "used' = used @ map toLowerCase toAdd" and d: "distinct (map toLowerCase toAdd)"
    and i: "set (map toLowerCase toAdd) \<inter> set used = {}" and s: "set toAdd \<subseteq> set kws"
    and l2: "length toAdd \<le> 2" by simp_all
  from Cons.IH [of used' idx']
  have rd: "distinct (map toLowerCase ?rest)"
    and ri: "set (map toLowerCase ?rest) \<inter> set used' = {}"
    and rs: "set ?rest \<subseteq> set kws"
    and rl: "list_all (\<lambda>toAdd. length toAdd \<le> 2) (map snd (formatLines kws (used', idx') ls))"
    by simp_all
  from ri u have ri1: "set (map toLowerCase ?rest) \<inter> set used = {}"
    and ri2: "set (map toLowerCase ?rest) \<inter> set (map toLowerCase toAdd) = {}" by auto
  have eq: "map snd (formatLines kws (used, idx) (l # ls)) =
              toAdd # map snd (formatLines kws (used', idx') ls)"
    by (simp add: fl)
  have c1: "distinct (map toLowerCase (toAdd @ ?rest))"
    using d rd ri2 by (simp add: Int_commute)
  have c2: "set (map toLowerCase (toAdd @ ?rest)) \<inter> set used = {}"
    using i ri1 by (simp add: Int_Un_distrib2)
  have c3: "set (toAdd @ ?rest) \<subseteq> set kws" using s rs by simp
  have c4: "list_all (\<lambda>toAdd. length toAdd \<le> 2) (toAdd # map snd (formatLines kws (used', idx') ls))"
    using l2 rl by simp
  from c1 c2 c3 c4 show ?case unfolding eq by simp
qed

text \<open>
  C1: in one pass of \<^verbatim>\<open>formatExperienceWithKeywords\<close> over any experience text and any
  list of keywords, no line receives more than 2 keywords; the keywords injected over all
  lines are pairwise different, even up to case, so no keyword is injected twice, neither
  into two bullets nor twice into one; every injected keyword is one of those supplied;
  and their number is at most the number of distinct keywords supplied.
\<close>

theorem injection_pass_bounds:
  "(\<forall>toAdd\<in>set (injectedPerLine experienceText kws). length toAdd \<le> maxKeywordsPerBullet) \<and>
   distinct (map toLowerCase (concat (injectedPerLine experienceText kws))) \<and>
   distinct (concat (injectedPerLine experienceText kws)) \<and>
   set (concat (injectedPerLine experienceText kws)) \<subseteq> set kws \<and>
   length (concat (injectedPerLine experienceText kws)) \<le> card (set kws)"
proof (cases "experienceText = []")
  case True
  then show ?thesis by (simp add: injectedPerLine_def)
next
  case False
  let ?ls = "splitWhere (\<lambda>c. c = 10) experienceText"
  let ?inj = "concat (injectedPerLine experienceText kws)"
  from False have ipl: "injectedPerLine experienceText kws = map snd (formatLines kws ([], 0) ?ls)"
    by (simp add: injectedPerLine_def)
  from formatLines_inv [of kws "[]" 0 ?ls]
  have a: "list_all (\<lambda>toAdd. length toAdd \<le> 2) (injectedPerLine experienceText kws)"
    and b: "distinct (map toLowerCase ?inj)" and c: "set ?inj \<subseteq> set kws"
    unfolding ipl by simp_all
  from b have d: "distinct ?inj" by (simp add: distinct_map)
  then have "card (set ?inj) = length ?inj" by (rule distinct_card)
  moreover have "card (set ?inj) \<le> card (set kws)" by (rule card_mono [OF finite_set c])
  ultimately have e: "length ?inj \<le> card (set kws)" by (simp only:)
  from a have a': "\<forall>toAdd\<in>set (injectedPerLine experienceText kws). length toAdd \<le> maxKeywordsPerBullet"
    by (simp add: list_all_iff maxKeywordsPerBullet_def)
  from a' b d c e show ?thesis by (intro conjI)
qed


lemma twoBullets_injected:
  "injectedPerLine twoBullets threeKeywords = [[js ''Spark'', js ''Kafka''], [], [js ''Python'']]"
  by (simp add: injectedPerLine_def twoBullets_def threeKeywords_def bullet_defs selectLoop.simps
        str_defs Let_def)

theorem injection_pass_bounds_witness:
  "injectedPerLine twoBullets threeKeywords = [[js ''Spark'', js ''Kafka''], [], [js ''Python'']] \<and>
   length (concat (injectedPerLine twoBullets threeKeywords)) \<le> card (set threeKeywords) \<and>
   distinct (concat (injectedPerLine twoBullets threeKeywords))"
proof -
  from injection_pass_bounds [of twoBullets threeKeywords]
  have "length (concat (injectedPerLine twoBullets threeKeywords)) \<le> card (set threeKeywords)"
    and "distinct (concat (injectedPerLine twoBullets threeKeywords))" by blast+
  with twoBullets_injected show ?thesis by (intro conjI)
qed



section \<open>The clause appended to a bullet\<close>

lemma splitWhere_no_separator: "\<forall>c\<in>set s. \<not> P c \<Longrightarrow> splitWhere P s = [s]"
  by (induction s) simp_all

lemma selectLoop_two_fresh:
  assumes "\<not> includesStr bl (toLowerCase k1)" and "\<not> includesStr bl (toLowerCase k2)"
    and "toLowerCase k1 \<noteq> toLowerCase k2"
  shows "selectLoop [k1, k2] bl 2 [] [] 0 = ([k1, k2], [toLowerCase k1, toLowerCase k2], 2)"
proof -
  have "selectLoop [k1, k2] bl 2 [] [] 0 = selectLoop [k1, k2] bl 2 [k1] [toLowerCase k1] 1"
    using assms(1) by (subst selectLoop.simps) (simp add: setAdd_def)
  also have "\<dots> = selectLoop [k1, k2] bl 2 [k1, k2] [toLowerCase k1, toLowerCase k2] 2"
    using assms(2, 3) by (subst selectLoop.simps) (simp add: setAdd_def numeral_2_eq_2)
  also have "\<dots> = ([k1, k2], [toLowerCase k1, toLowerCase k2], 2)"
    by (subst selectLoop.simps) simp
  finally show ?thesis .
qed

theorem bullet_scenario_counterexample:
  "formatExperienceWithKeywords (js ''- Built data pipelines.'') [js ''Spark'', js ''Kafka''] \<noteq>
     js ''- Built data pipelines, leveraging Spark and Kafka.''"
  by (simp add: bullet_defs selectLoop.simps str_defs Let_def)

lemma formatLine_emits:
  "fst (fst (formatLine kws st line)) = emittedLine line (snd (fst (formatLine kws st line)))"
proof (cases "isBullet (trim line)")
  case False
  then show ?thesis by (simp add: formatLine_def emittedLine_def Let_def)
next
  case bullet: True
  let ?content = "stripBullet (trim line)"
  let ?existing = "existingCount (map toLowerCase kws) (toLowerCase ?content)"
  show ?thesis
  proof (cases "?existing < maxKeywordsPerBullet \<and> snd st < length kws")
    case False
    with bullet show ?thesis by (auto simp add: formatLine_def emittedLine_def Let_def)
  next
    case True
    obtain a b c where sel:
      "selectLoop kws (toLowerCase ?content) (maxKeywordsPerBullet - ?existing) [] (fst st) (snd st) =
         (a, b, c)"
      by (cases "selectLoop kws (toLowerCase ?content) (maxKeywordsPerBullet - ?existing) []
                   (fst st) (snd st)") auto
    with bullet True show ?thesis
      by (simp add: formatLine_def emittedLine_def weave_def Let_def)
  qed
qed

lemma formatLines_emit:
  "map fst (formatLines kws st ls) =
     map2 emittedLine ls (map snd (formatLines kws st ls)) \<and>
   length (formatLines kws st ls) = length ls"
proof (induction ls arbitrary: st)
  case Nil
  show ?case by simp
next
  case (Cons l ls)
  obtain r st' where fl: "formatLine kws st l = (r, st')" by (cases "formatLine kws st l") auto
  from formatLine_emits [of kws st l] fl have "fst r = emittedLine l (snd r)" by simp
  with Cons.IH [of st'] fl show ?case by simp
qed

lemma emittedLine_explicit:
  "emittedLine =
     (\<lambda>line toAdd.
        if isBullet (trim line) then
          js ''-  '' @
          (if toAdd = [] then stripBullet (trim line)
           else if endsWith (stripBullet (trim line)) [46] then
             butlast (stripBullet (trim line)) @ js '', leveraging '' @
             join (js '' and '') toAdd @ [46]
           else stripBullet (trim line) @ js '' utilizing '' @ join (js '' and '') toAdd)
        else line)"
  by (rule ext, rule ext) (simp only: emittedLine_def)

lemma bullet_two_keywords:
  assumes "\<forall>c\<in>set line. c \<noteq> 10" and "isBullet (trim line)"
    and "\<not> includesStr (toLowerCase (stripBullet (trim line))) (toLowerCase k1)"
    and "\<not> includesStr (toLowerCase (stripBullet (trim line))) (toLowerCase k2)"
    and "toLowerCase k1 \<noteq> toLowerCase k2"
  shows "formatExperienceWithKeywords line [k1, k2] =
           js ''-  '' @
           (if endsWith (stripBullet (trim line)) [46] then
              butlast (stripBullet (trim line)) @ js '', leveraging '' @ k1 @ js '' and '' @ k2 @ [46]
            else stripBullet (trim line) @ js '' utilizing '' @ k1 @ js '' and '' @ k2)"
proof -
  from assms(2) have ne: "line \<noteq> []" by (auto simp add: isBullet_def trim_def startsWith_def)
  from assms(1) have sp: "splitWhere (\<lambda>c. c = 10) line = [line]"
    by (rule splitWhere_no_separator)
  have ex: "existingCount (map toLowerCase [k1, k2]) (toLowerCase (stripBullet (trim line))) = 0"
    using assms(3, 4) by (simp add: existingCount_def)
  have fl: "formatLine [k1, k2] ([], 0) line =
              ((js ''-  '' @ weave (stripBullet (trim line)) [k1, k2], [k1, k2]),
               ([toLowerCase k1, toLowerCase k2], 2))"
    using assms(2) ex selectLoop_two_fresh [OF assms(3, 4, 5)]
    by (simp add: formatLine_def Let_def maxKeywordsPerBullet_def)
  show ?thesis
    by (simp add: formatExperienceWithKeywords_def ne sp fl weave_def)
qed

text \<open>
  C7 (as amended): in one injection pass over a non-empty experience text, every line that
  is not a bullet is left as it is, and every bullet line, wherever it stands and whatever
  was injected before it, is emitted as a hyphen and two spaces followed by its bullet
  text: unchanged when no keyword was chosen for it; with its final period replaced by
  \<^verbatim>\<open>, leveraging\<close>, the chosen keywords joined by \<^verbatim>\<open> and \<close>, and a period when it ends
  with a period; and followed by \<^verbatim>\<open> utilizing\<close> and the chosen keywords joined by
  \<^verbatim>\<open> and \<close> otherwise. The lines are joined by line feeds. One chosen keyword is listed
  alone, two as \<^verbatim>\<open>k1 and k2\<close>. In particular a one-line text whose bullet text contains
  neither of the two supplied keywords (which differ beyond case) receives both; for
  \<^verbatim>\<open>- Built data pipelines.\<close> with Spark and Kafka the line is
  \<^verbatim>\<open>-  Built data pipelines, leveraging Spark and Kafka.\<close>
\<close>

theorem bullet_clause_format:
  "(experienceText \<noteq> [] \<longrightarrow>
      length (injectedPerLine experienceText kws) =
        length (splitWhere (\<lambda>c. c = 10) experienceText) \<and>
      formatExperienceWithKeywords experienceText kws =
        join [10]
          (map2
             (\<lambda>line toAdd.
                if isBullet (trim line) then
                  js ''-  '' @
                  (if toAdd = [] then stripBullet (trim line)
                   else if endsWith (stripBullet (trim line)) [46] then
                     butlast (stripBullet (trim line)) @ js '', leveraging '' @
                     join (js '' and '') toAdd @ [46]
                   else stripBullet (trim line) @ js '' utilizing '' @ join (js '' and '') toAdd)
                else line)
             (splitWhere (\<lambda>c. c = 10) experienceText)
             (injectedPerLine experienceText kws))) \<and>
   join (js '' and '') [k1] = k1 \<and>
   join (js '' and '') [k1, k2] = k1 @ js '' and '' @ k2 \<and>
   ((\<forall>c\<in>set line. c \<noteq> 10) \<and> isBullet (trim line) \<and>
    \<not> includesStr (toLowerCase (stripBullet (trim line))) (toLowerCase k1) \<and>
    \<not> includesStr (toLowerCase (stripBullet (trim line))) (toLowerCase k2) \<and>
    toLowerCase k1 \<noteq> toLowerCase k2 \<longrightarrow>
      formatExperienceWithKeywords line [k1, k2] =
        js ''-  '' @
        (if endsWith (stripBullet (trim line)) [46] then
           butlast (stripBullet (trim line)) @ js '', leveraging '' @ k1 @ js '' and '' @ k2 @ [46]
         else stripBullet (trim line) @ js '' utilizing '' @ k1 @ js '' and '' @ k2))"
proof -
  have gen: "length (injectedPerLine experienceText kws) =
        length (splitWhere (\<lambda>c. c = 10) experienceText) \<and>
      formatExperienceWithKeywords experienceText kws =
        join [10] (map2 emittedLine (splitWhere (\<lambda>c. c = 10) experienceText)
                     (injectedPerLine experienceText kws))"
    if "experienceText \<noteq> []"
    using that formatLines_emit [of kws "([], 0)" "splitWhere (\<lambda>c. c = 10) experienceText"]
    by (simp add: formatExperienceWithKeywords_def injectedPerLine_def)
  have two: "formatExperienceWithKeywords line [k1, k2] =
        js ''-  '' @
        (if endsWith (stripBullet (trim line)) [46] then
           butlast (stripBullet (trim line)) @ js '', leveraging '' @ k1 @ js '' and '' @ k2 @ [46]
         else stripBullet (trim line) @ js '' utilizing '' @ k1 @ js '' and '' @ k2)"
    if "(\<forall>c\<in>set line. c \<noteq> 10) \<and> isBullet (trim line) \<and>
    \<not> includesStr (toLowerCase (stripBullet (trim line))) (toLowerCase k1) \<and>
    \<not> includesStr (toLowerCase (stripBullet (trim line))) (toLowerCase k2) \<and>
    toLowerCase k1 \<noteq> toLowerCase k2"
    using that by (intro bullet_two_keywords) simp_all
  have j1: "join (js '' and '') [k1] = k1" by simp
  have j2: "join (js '' and '') [k1, k2] = k1 @ js '' and '' @ k2" by simp
  from gen two j1 j2 show ?thesis unfolding emittedLine_explicit by blast
qed

lemma twoBullets_lines:
  "splitWhere (\<lambda>c. c = 10) twoBullets =
     [js ''- Built data pipelines.'', js ''Acme Corp'', js ''* Led the team'']"
  by (simp add: twoBullets_def js_def)

theorem bullet_clause_format_witness:
  "twoBullets \<noteq> [] \<and>
   formatExperienceWithKeywords twoBullets threeKeywords =
     js ''-  Built data pipelines, leveraging Spark and Kafka.'' @ [10] @ js ''Acme Corp'' @ [10] @
     js ''-  Led the team utilizing Python'' \<and>
   formatExperienceWithKeywords (js ''- Built data pipelines.'') [js ''Spark'', js ''Kafka''] =
     js ''-  Built data pipelines, leveraging Spark and Kafka.'' \<and>
   formatExperienceWithKeywords (js ''* Built data pipelines'') [js ''Spark'', js ''Kafka''] =
     js ''-  Built data pipelines utilizing Spark and Kafka''"
proof -
  have ne: "twoBullets \<noteq> []" by (simp add: twoBullets_def js_def)
  have t1: "trim (js ''- Built data pipelines.'') = js ''- Built data pipelines.''"
    by (simp add: str_defs)
  have s1: "stripBullet (js ''- Built data pipelines.'') = js ''Built data pipelines.''"
    by (simp add: stripBullet_def str_defs)
  have t2: "trim (js ''* Built data pipelines'') = js ''* Built data pipelines''"
    by (simp add: str_defs)
  have s2: "stripBullet (js ''* Built data pipelines'') = js ''Built data pipelines''"
    by (simp add: stripBullet_def str_defs)
  have t3: "trim (js ''* Led the team'') = js ''* Led the team''" by (simp add: str_defs)
  have s3: "stripBullet (js ''* Led the team'') = js ''Led the team''"
    by (simp add: stripBullet_def str_defs)
  have t4: "trim (js ''Acme Corp'') = js ''Acme Corp''" by (simp add: str_defs)
  have b1: "isBullet (js ''- Built data pipelines.'')" by (simp add: isBullet_def str_defs)
  have b3: "isBullet (js ''* Led the team'')" by (simp add: isBullet_def str_defs)
  have b4: "\<not> isBullet (js ''Acme Corp'')" by (simp add: isBullet_def str_defs)
  have e1: "endsWith (js ''Built data pipelines.'') [46]" by (simp add: str_defs)
  have e3: "\<not> endsWith (js ''Led the team'') [46]" by (simp add: str_defs)
  have b2: "isBullet (js ''* Built data pipelines'')" by (simp add: isBullet_def str_defs)
  have e2: "\<not> endsWith (js ''Built data pipelines'') [46]" by (simp add: str_defs)
  from bullet_clause_format [of twoBullets threeKeywords] ne
  have "formatExperienceWithKeywords twoBullets threeKeywords =
     js ''-  Built data pipelines, leveraging Spark and Kafka.'' @ [10] @ js ''Acme Corp'' @ [10] @
     js ''-  Led the team utilizing Python''"
    by (simp only: twoBullets_lines twoBullets_injected)
       (simp add: t1 s1 t3 s3 t4 b1 b3 b4 e1 e3, simp add: js_def)
  moreover
  have "formatExperienceWithKeywords (js ''- Built data pipelines.'') [js ''Spark'', js ''Kafka''] =
     js ''-  Built data pipelines, leveraging Spark and Kafka.''"
    using bullet_clause_format [of "[]" "[]" "js ''Spark''" "js ''Kafka''" "js ''- Built data pipelines.''"]
    by (simp add: t1 s1 b1 e1) (simp add: str_defs)
  moreover
  have "formatExperienceWithKeywords (js ''* Built data pipelines'') [js ''Spark'', js ''Kafka''] =
     js ''-  Built data pipelines utilizing Spark and Kafka''"
    using bullet_clause_format [of "[]" "[]" "js ''Spark''" "js ''Kafka''" "js ''* Built data pipelines''"]
    by (simp add: t2 s2 b2 e2) (simp add: str_defs)
  ultimately show ?thesis using ne by (intro conjI)
qed



section \<open>Tailoring twice\<close>



























end
